theory Spec2Isabelle
  imports Main "HOL-Library.Word"
begin

unbundle bit_operations_syntax

section \<open>The memory pool of \<^verbatim>\<open>src/net/src/memory_pool.h\<close>\<close>

text \<open>
  \<^verbatim>\<open>net::MemoryPool\<close> keeps 64 lazily allocated pages and a 64-bit mask \<^verbatim>\<open>bits_\<close> of the
  pages in use. Every page is preceded by one head byte: the index of the page in the page
  table, or \<^verbatim>\<open>0xFF\<close> for a page that was allocated outside the table.

  The embedding is sequential: one thread runs each member function to its end. The
  atomic operations on \<^verbatim>\<open>bits_\<close> are single updates of the state; the loop of
  \<^verbatim>\<open>Allocate\<close> still keeps its local copy \<^verbatim>\<open>bit\<close> apart from the shared \<^verbatim>\<open>bits_\<close>, so
  the branch of a failed compare-exchange is part of the model.
\<close>

subsection \<open>Addresses, types, faults and the calls that leave the pool\<close>

text \<open>
  An address is a natural number, \<open>0\<close> is \<^verbatim>\<open>nullptr\<close>. A type \<^verbatim>\<open>T\<close> of the two templates is
  what the pool uses of it: \<^verbatim>\<open>sizeof(T)\<close> (a \<^verbatim>\<open>size_t\<close>), \<^verbatim>\<open>alignof(T)\<close> and the constructor,
  a function from the arguments to the object it builds. Constructors and destructors
  are taken to return normally.
\<close>

type_synonym addr = nat

datatype ('a, 'o) cxx_type =
  CxxType (sizeof: "64 word") (alignof: nat) (construct: "'a \<Rightarrow> 'o")

text \<open>
  Undefined behaviour of the C++ is a fault of the model: an access through the null
  pointer, the signed overflow of \<^verbatim>\<open>pageSize_ + pageOffset_\<close>, and a shift of a 64-bit
  value by 64 or more.
\<close>

datatype error = NullDeref | SignedOverflow | ShiftOutOfRange

text \<open>
  The calls to the C library and to \<^verbatim>\<open>T\<close> are logged, in order: \<^verbatim>\<open>std::malloc(n)\<close> and
  \<^verbatim>\<open>std::aligned_alloc(al, n)\<close> with the address they returned, \<^verbatim>\<open>std::free(p)\<close>, the
  placement \<^verbatim>\<open>new (p) T(args...)\<close> with the object built, and \<^verbatim>\<open>p->~T()\<close>.
\<close>

datatype 'o event =
    EvMalloc "64 word" addr
  | EvAlignedAlloc nat "64 word" addr
  | EvFree addr
  | EvConstruct addr 'o
  | EvDestruct addr

text \<open>
  The members of the class, then the memory around it: \<open>mem\<close> holds the bytes written
  through \<^verbatim>\<open>uint8_t *\<close>, \<open>objs\<close> the objects constructed and not yet destructed, by address,
  \<open>blocks\<close> the raw allocations not yet freed, by base address.
\<close>

record 'o state =
  pageSize :: "64 word"
  bits :: "64 word"
  pages :: "addr list"
  mem :: "addr \<Rightarrow> 8 word"
  objs :: "addr \<rightharpoonup> 'o"
  blocks :: "addr set"
  trace :: "'o event list"

type_synonym 'o result = "(error \<times> 'o state) + (addr \<times> 'o state)"

text \<open>
  \<^verbatim>\<open>const int8_t pageOffset_ = sizeof(uint8_t)\<close> and \<^verbatim>\<open>const uint8_t extendFlag_ = 0xFF\<close>.
  The names of the members lose their final underscore, which the logic keeps for
  its own names.
\<close>

definition pageOffset :: "8 word" where
  "pageOffset = 1"

definition extendFlag :: "8 word" where
  "extendFlag = 0xFF"

text \<open>
  The raw allocator is not part of the pool. Each call of \<^verbatim>\<open>Allocate\<close> reaches it at most
  once, so the address it would hand out is an argument \<open>raw\<close> of the call (\<open>0\<close> when the
  allocation fails).
\<close>

definition std_malloc :: "64 word \<Rightarrow> addr \<Rightarrow> 'o state \<Rightarrow> 'o state" where
  "std_malloc n raw s =
     s\<lparr>blocks := (if raw = 0 then blocks s else insert raw (blocks s)),
       trace := trace s @ [EvMalloc n raw]\<rparr>"

definition std_aligned_alloc :: "nat \<Rightarrow> 64 word \<Rightarrow> addr \<Rightarrow> 'o state \<Rightarrow> 'o state" where
  "std_aligned_alloc al n raw s =
     s\<lparr>blocks := (if raw = 0 then blocks s else insert raw (blocks s)),
       trace := trace s @ [EvAlignedAlloc al n raw]\<rparr>"

definition std_free :: "addr \<Rightarrow> 'o state \<Rightarrow> 'o state" where
  "std_free p s = s\<lparr>blocks := blocks s - {p}, trace := trace s @ [EvFree p]\<rparr>"

text \<open>
  \<^verbatim>\<open>*page = v\<close> for a \<^verbatim>\<open>uint8_t *page\<close>. The extent of a block is not part of the model: a
  write through a pointer that is not null succeeds.
\<close>

definition store_byte :: "addr \<Rightarrow> 8 word \<Rightarrow> 'o state \<Rightarrow> (error \<times> 'o state) + 'o state" where
  "store_byte p v s =
     (if p = 0 then Inl (NullDeref, s) else Inr (s\<lparr>mem := (mem s)(p := v)\<rparr>))"

text \<open>\<^verbatim>\<open>new (p) T(std::forward<Args>(args)...)\<close> and \<^verbatim>\<open>ptr->~T()\<close>.\<close>

definition placement_new :: "addr \<Rightarrow> ('a, 'o) cxx_type \<Rightarrow> 'a \<Rightarrow> 'o state \<Rightarrow> 'o state" where
  "placement_new p T args s =
     s\<lparr>objs := (objs s)(p \<mapsto> construct T args),
       trace := trace s @ [EvConstruct p (construct T args)]\<rparr>"

definition destroy :: "addr \<Rightarrow> 'o state \<Rightarrow> 'o state" where
  "destroy p s = s\<lparr>objs := (objs s)(p := None), trace := trace s @ [EvDestruct p]\<rparr>"

subsection \<open>Constructor and destructor of the pool\<close>

text \<open>
  \<^verbatim>\<open>MemoryPool(int64_t pageSize)\<close> on a memory that holds nothing of the pool yet;
  \<^verbatim>\<open>MemoryPool()\<close> delegates with 512.
\<close>

definition MemoryPool :: "64 word \<Rightarrow> 'o state" where
  "MemoryPool n =
     \<lparr>pageSize = n, bits = 0, pages = replicate 64 0,
      mem = (\<lambda>_. 0), objs = Map.empty, blocks = {}, trace = []\<rparr>"

definition MemoryPool_default :: "'o state" where
  "MemoryPool_default = MemoryPool 512"

text \<open>\<^verbatim>\<open>~MemoryPool()\<close>: the loop over the page table, from index \<open>i\<close> on.\<close>

function MemoryPool_dtor_loop :: "'o state \<Rightarrow> nat \<Rightarrow> 'o state" where
  "MemoryPool_dtor_loop s i =
     (if i < 64
      then MemoryPool_dtor_loop
             (if pages s ! i \<noteq> 0 then std_free (pages s ! i - 1) s else s) (i + 1)
      else s)"
  by pat_completeness auto
termination
  by (relation "measure (\<lambda>(s, i). 64 - i)") auto

declare MemoryPool_dtor_loop.simps [simp del]

definition MemoryPool_dtor :: "'o state \<Rightarrow> 'o state" where
  "MemoryPool_dtor s = MemoryPool_dtor_loop s 0"

subsection \<open>Allocate\<close>

text \<open>
  \<^verbatim>\<open>AllocateExtend<T>(args...)\<close>: a page of its own, \<^verbatim>\<open>sizeof(T) + pageOffset_\<close> bytes (the
  sum is taken in \<^verbatim>\<open>size_t\<close>), head byte \<^verbatim>\<open>0xFF\<close>, the object behind the head.
\<close>

definition AllocateExtend :: "('a, 'o) cxx_type \<Rightarrow> 'a \<Rightarrow> addr \<Rightarrow> 'o state \<Rightarrow> 'o result" where
  "AllocateExtend T args raw s =
     (let s1 = std_aligned_alloc (alignof T) (sizeof T + scast pageOffset) raw s;
          page = raw
      in case store_byte page extendFlag s1 of
           Inl e \<Rightarrow> Inl e
         | Inr s2 \<Rightarrow> Inr (page + 1, placement_new (page + 1) T args s2))"

text \<open>
  The body of the loop of \<^verbatim>\<open>Allocate\<close> once the compare-exchange has set bit \<open>i\<close>
  (lines 62 to 68): allocate page \<open>i\<close> if it is not there, then build the object in it.
  \<^verbatim>\<open>pageSize_ + pageOffset_\<close> is an addition of \<^verbatim>\<open>int64_t\<close>.
\<close>

definition claim_page :: "('a, 'o) cxx_type \<Rightarrow> 'a \<Rightarrow> addr \<Rightarrow> 'o state \<Rightarrow> nat \<Rightarrow> 'o result" where
  "claim_page T args raw s i =
     (if pages s ! i = 0 then
        (if sint (pageSize s) + sint pageOffset > 2 ^ 63 - 1 then Inl (SignedOverflow, s)
         else
           (let s1 = std_malloc (pageSize s + scast pageOffset) raw s;
                s2 = s1\<lparr>pages := (pages s1)[i := raw]\<rparr>;
                page = raw
            in case store_byte page (of_nat i) s2 of
                 Inl e \<Rightarrow> Inl e
               | Inr s3 \<Rightarrow>
                   (let s4 = s3\<lparr>pages := (pages s3)[i := page + 1]\<rparr>
                    in Inr (pages s4 ! i, placement_new (pages s4 ! i) T args s4))))
      else Inr (pages s ! i, placement_new (pages s ! i) T args s))"

text \<open>
  The loop of \<^verbatim>\<open>Allocate\<close> (lines 58 to 77) with its local \<^verbatim>\<open>bit\<close> (here \<open>bitv\<close>) and counter \<open>i\<close>.
  \<^verbatim>\<open>compare_exchange_strong(bit, bit | _bit)\<close> succeeds when \<^verbatim>\<open>bits_\<close> still equals \<open>bitv\<close>;
  when it fails, \<open>bitv\<close> is reloaded and the same \<open>i\<close> is tried again if its bit is
  still clear. Leaving the loop falls through to \<^verbatim>\<open>AllocateExtend\<close> (line 81).
\<close>

function Allocate_loop ::
  "('a, 'o) cxx_type \<Rightarrow> 'a \<Rightarrow> addr \<Rightarrow> 'o state \<Rightarrow> 64 word \<Rightarrow> nat \<Rightarrow> 'o result" where
  "Allocate_loop T args raw s bitv i =
     (if i < 64 then
        (if bitv AND push_bit i 1 = 0 then
           (if bits s = bitv
            then claim_page T args raw (s\<lparr>bits := bitv OR push_bit i 1\<rparr>) i
            else if bits s AND push_bit i 1 = 0
              then Allocate_loop T args raw s (bits s) i
              else Allocate_loop T args raw s (bits s) (i + 1))
         else Allocate_loop T args raw s bitv (i + 1))
      else AllocateExtend T args raw s)"
  by pat_completeness auto
termination
  by (relation "measure (\<lambda>(T, args, raw, s, bitv, i).
                  2 * (64 - i) + (if bits s = bitv then 0 else 1))") auto

declare Allocate_loop.simps [simp del]

text \<open>
  \<^verbatim>\<open>Allocate<T>(args...)\<close>. In \<^verbatim>\<open>sizeof(T) > pageSize_\<close> the \<^verbatim>\<open>int64_t\<close> is converted to
  \<^verbatim>\<open>size_t\<close>: the comparison is the unsigned one of 64-bit words.
\<close>

definition Allocate :: "('a, 'o) cxx_type \<Rightarrow> 'a \<Rightarrow> addr \<Rightarrow> 'o state \<Rightarrow> 'o result" where
  "Allocate T args raw s =
     (if pageSize s < sizeof T then AllocateExtend T args raw s
      else Allocate_loop T args raw s (bits s) 0)"

subsection \<open>Deallocate\<close>

text \<open>
  \<^verbatim>\<open>Deallocate<T>(ptr)\<close>. Of \<^verbatim>\<open>T\<close> only the destructor is used. The head byte is read
  after the destructor has run.
\<close>

definition Deallocate :: "addr \<Rightarrow> 'o state \<Rightarrow> (error \<times> 'o state) + 'o state" where
  "Deallocate ptr s =
     (if ptr = 0 then Inl (NullDeref, s)
      else
        (let page = ptr - 1;
             s1 = destroy ptr s
         in if mem s1 page = extendFlag then Inr (std_free page s1)
            else
              (let index = mem s1 page
               in if 64 \<le> unat index then Inl (ShiftOutOfRange, s1)
                  else Inr (s1\<lparr>bits := bits s1 AND NOT (push_bit (unat index) 1)\<rparr>))))"

subsection \<open>Runs of the pool and what can be observed of a call\<close>

text \<open>
  A caller of the pool: \<^verbatim>\<open>Allocate<T>(args...)\<close>, with the address the raw allocator hands
  out if it is asked (the address is ignored if it is not asked), or \<^verbatim>\<open>Deallocate(ptr)\<close>.
  A step is taken only within the contracts of the two sides: the allocator does not
  hand out the base of a block that is still allocated, and the caller deallocates only
  objects that this pool has constructed and not yet destructed. A fault ends the run.
\<close>

datatype ('a, 'o) op = OpAllocate "('a, 'o) cxx_type" 'a addr | OpDeallocate addr

fun step :: "'o state \<Rightarrow> ('a, 'o) op \<Rightarrow> 'o state option" where
  "step s (OpAllocate T args raw) =
     (if raw \<in> blocks s then None
      else case Allocate T args raw s of Inl f \<Rightarrow> None | Inr (p, s') \<Rightarrow> Some s')"
| "step s (OpDeallocate ptr) =
     (if objs s ptr = None then None
      else case Deallocate ptr s of Inl f \<Rightarrow> None | Inr s' \<Rightarrow> Some s')"

fun run :: "'o state \<Rightarrow> ('a, 'o) op list \<Rightarrow> 'o state option" where
  "run s [] = Some s"
| "run s (x # xs) = (case step s x of None \<Rightarrow> None | Some s' \<Rightarrow> run s' xs)"

text \<open>The state a call of \<^verbatim>\<open>Allocate\<close> ends in, its fault, and the events it logged.\<close>

definition state_of :: "'o result \<Rightarrow> 'o state" where
  "state_of r = (case r of Inl (e, s) \<Rightarrow> s | Inr (p, s) \<Rightarrow> s)"

definition fault_of :: "'o result \<Rightarrow> error option" where
  "fault_of r = (case r of Inl (e, s) \<Rightarrow> Some e | Inr (p, s) \<Rightarrow> None)"

definition events_since :: "'o state \<Rightarrow> 'o state \<Rightarrow> 'o event list" where
  "events_since s s' = drop (length (trace s)) (trace s')"

fun is_aligned_alloc :: "'o event \<Rightarrow> bool" where
  "is_aligned_alloc (EvAlignedAlloc al n p) = True"
| "is_aligned_alloc _ = False"

fun is_malloc :: "'o event \<Rightarrow> bool" where
  "is_malloc (EvMalloc n p) = True"
| "is_malloc _ = False"

fun is_raw_alloc :: "'o event \<Rightarrow> bool" where
  "is_raw_alloc (EvMalloc n p) = True"
| "is_raw_alloc (EvAlignedAlloc al n p) = True"
| "is_raw_alloc _ = False"

fun returned_null :: "'o event \<Rightarrow> bool" where
  "returned_null (EvMalloc n p) = (p = 0)"
| "returned_null (EvAlignedAlloc al n p) = (p = 0)"
| "returned_null _ = False"

fun is_destruct :: "'o event \<Rightarrow> bool" where
  "is_destruct (EvDestruct p) = True"
| "is_destruct _ = False"

text \<open>
  \<^verbatim>\<open>AllocateExtend\<close> is the only caller of \<^verbatim>\<open>std::aligned_alloc\<close> and calls it first: a
  call of \<^verbatim>\<open>Allocate\<close> went through it exactly when it logged such a call.
\<close>

definition took_overflow :: "'o state \<Rightarrow> 'o result \<Rightarrow> bool" where
  "took_overflow s r = list_ex is_aligned_alloc (events_since s (state_of r))"

text \<open>The first index from \<open>i\<close> on whose bit is clear in \<open>w\<close>, 64 if there is none.\<close>

function first_clear :: "64 word \<Rightarrow> nat \<Rightarrow> nat" where
  "first_clear w i = (if i < 64 \<and> bit w i then first_clear w (i + 1) else i)"
  by pat_completeness auto
termination
  by (relation "measure (\<lambda>(w, i). 64 - i)") auto

declare first_clear.simps [simp del]

text \<open>
  The invariant of the pool: the table has 64 entries; a page of the table is a live
  block that \<^verbatim>\<open>std::malloc\<close> returned, with the index of the page in its head byte; bit \<open>i\<close>
  is set exactly when page \<open>i\<close> holds an object; a live object sits behind the head byte
  of a live block, either behind the flag and outside the table or in a page of the
  table.
\<close>

definition pool_inv :: "'o state \<Rightarrow> bool" where
  "pool_inv s \<longleftrightarrow>
     length (pages s) = 64 \<and>
     0 \<notin> blocks s \<and>
     (\<forall>i<64. pages s ! i \<noteq> 0 \<longrightarrow>
        pages s ! i - 1 \<in> blocks s \<and> mem s (pages s ! i - 1) = of_nat i) \<and>
     (\<forall>i<64. bit (bits s) i \<longleftrightarrow> pages s ! i \<noteq> 0 \<and> objs s (pages s ! i) \<noteq> None) \<and>
     (\<forall>p. objs s p \<noteq> None \<longrightarrow>
        p \<noteq> 0 \<and> p - 1 \<in> blocks s \<and>
        (mem s (p - 1) = extendFlag \<and> p \<notin> set (pages s) \<or> (\<exists>i<64. pages s ! i = p))) \<and>
     (\<forall>i<64. pages s ! i \<noteq> 0 \<longrightarrow> (\<exists>m. EvMalloc m (pages s ! i - 1) \<in> set (trace s)))"

text \<open>The type of the example of the specification: \<^verbatim>\<open>Point(x, y)\<close>, two 64-bit fields.\<close>

record point =
  px :: int
  py :: int

definition Point :: "(int \<times> int, point) cxx_type" where
  "Point = CxxType 16 8 (\<lambda>(x, y). \<lparr>px = x, py = y\<rparr>)"

text \<open>
  Two pools for the examples. In the first, of 512 bytes, two points are allocated
  (pages 0 and 1, blocks at 32 and 64), the first is deallocated and a third takes
  page 0 again. In the second, of 8 bytes, a point does not fit a page.
\<close>

definition example_ops :: "(int \<times> int, point) op list" where
  "example_ops =
     [OpAllocate Point (3, 4) 32, OpAllocate Point (5, 6) 64, OpDeallocate 33,
      OpAllocate Point (7, 8) 96]"

definition example_pool :: "point state" where
  "example_pool = the (run (MemoryPool 512) example_ops)"

definition example_overflow_pool :: "point state" where
  "example_overflow_pool = the (run (MemoryPool 8) [OpAllocate Point (3, 4) 32])"

text \<open>
  The calls of \<^verbatim>\<open>std::malloc\<close> of a run are as many as the pages of the table: a second
  invariant, of the log.
\<close>

fun is_construct :: "'o event \<Rightarrow> bool" where
  "is_construct (EvConstruct p v) = True"
| "is_construct _ = False"

definition count_inv :: "'o state \<Rightarrow> bool" where
  "count_inv s \<longleftrightarrow>
     length (filter is_malloc (trace s)) = length (filter (\<lambda>p. p \<noteq> 0) (pages s))"

section \<open>Properties\<close>

subsection \<open>The scan of the bitmap\<close>

lemma and_push_bit_1: "(w :: 64 word) AND push_bit i 1 = 0 \<longleftrightarrow> \<not> bit w i"
  by (simp add: and_exp_eq_0_iff_not_bit)

lemma and_exp_1: "(w :: 64 word) AND 2 ^ i = 0 \<longleftrightarrow> \<not> bit w i"
  by (simp add: and_exp_eq_0_iff_not_bit)

lemma first_clear_ge: "i \<le> first_clear w i"
  by (induction w i rule: first_clear.induct) (subst first_clear.simps, auto)

lemma first_clear_le: "i \<le> 64 \<Longrightarrow> first_clear w i \<le> 64"
  by (induction w i rule: first_clear.induct) (subst first_clear.simps, auto)

lemma first_clear_clear: "first_clear w i < 64 \<Longrightarrow> \<not> bit w (first_clear w i)"
  by (induction w i rule: first_clear.induct) (subst (asm) first_clear.simps, subst first_clear.simps, auto split: if_splits)

lemma first_clear_below: "i \<le> j \<Longrightarrow> j < first_clear w i \<Longrightarrow> bit w j"
proof (induction w i rule: first_clear.induct)
  case (1 w i)
  show ?case
  proof (cases "i < 64 \<and> bit w i")
    case True
    then have eq: "first_clear w i = first_clear w (i + 1)" by (subst first_clear.simps) simp
    show ?thesis
    proof (cases "j = i")
      case True with \<open>i < 64 \<and> bit w i\<close> show ?thesis by simp
    next
      case False
      with 1 True eq show ?thesis by auto
    qed
  next
    case False
    then have "first_clear w i = i" by (subst first_clear.simps) auto
    with 1 show ?thesis by simp
  qed
qed

lemma first_clear_full: "first_clear w 0 = 64 \<longleftrightarrow> w = - 1"
proof
  assume h: "first_clear w 0 = 64"
  show "w = - 1"
  proof (rule bit_eqI)
    fix n assume "possible_bit TYPE(64 word) n"
    then have "n < 64" by (simp add: possible_bit_word)
    then have "bit w n" using first_clear_below[of 0 n w] h by simp
    then show "bit w n = bit (- 1 :: 64 word) n" using \<open>n < 64\<close> by simp
  qed
next
  assume "w = - 1"
  then have "\<And>j. j < 64 \<Longrightarrow> bit w j" by simp
  then have "\<not> first_clear w 0 < 64" using first_clear_clear[of w 0] by blast
  then show "first_clear w 0 = 64" using first_clear_le[of 0 w] by simp
qed

lemma first_clear_eqI:
  assumes "i < 64" "\<not> bit w i" "\<forall>j<i. bit w j"
  shows "first_clear w 0 = i"
proof -
  define k where "k = first_clear w 0"
  have "\<not> i < k" using first_clear_below[of 0 i w] assms(2) by (auto simp: k_def)
  then have ki: "k \<le> i" by simp
  then have "k < 64" using assms(1) by simp
  then have "\<not> bit w k" using first_clear_clear[of w 0] by (simp add: k_def)
  then have "\<not> k < i" using assms(3) by blast
  then show ?thesis using ki by (simp add: k_def)
qed

lemma Allocate_loop_seq:
  "Allocate_loop T args raw s (bits s) i =
     (if first_clear (bits s) i < 64
      then claim_page T args raw (s\<lparr>bits := bits s OR push_bit (first_clear (bits s) i) 1\<rparr>) (first_clear (bits s) i)
      else AllocateExtend T args raw s)"
proof (induction "64 - i" arbitrary: i)
  case 0
  then have "\<not> i < 64" by simp
  then show ?case
    using first_clear_ge[of i "bits s"] by (subst Allocate_loop.simps) simp
next
  case (Suc n)
  then have lt: "i < 64" by simp
  show ?case
  proof (cases "bit (bits s) i")
    case True
    then have fc: "first_clear (bits s) i = first_clear (bits s) (i + 1)"
      using lt by (subst first_clear.simps) simp
    have "Allocate_loop T args raw s (bits s) i = Allocate_loop T args raw s (bits s) (i + 1)"
      using lt True by (subst Allocate_loop.simps) (simp add: and_exp_1)
    also have "\<dots> = (if first_clear (bits s) (i + 1) < 64
      then claim_page T args raw (s\<lparr>bits := bits s OR push_bit (first_clear (bits s) (i + 1)) 1\<rparr>) (first_clear (bits s) (i + 1))
      else AllocateExtend T args raw s)"
      using Suc(1)[of "i + 1"] Suc(2) by simp
    finally show ?thesis by (simp add: fc)
  next
    case False
    then have fc: "first_clear (bits s) i = i"
      by (subst first_clear.simps) simp
    show ?thesis
      using lt False by (subst Allocate_loop.simps) (simp add: and_exp_1 fc)
  qed
qed

subsection \<open>The cases of a call of Allocate\<close>

text \<open>
  In the sequential model the loop claims the first clear bit, or leaves with all
  64 bits set (\<open>Allocate_cases\<close>).
\<close>

lemma offset_simps [simp]: "sint pageOffset = 1" "(scast pageOffset :: 64 word) = 1"
  by (simp_all add: pageOffset_def)

lemma sint_max: "sint (w :: 64 word) \<le> 2 ^ 63 - 1"
  using sint_lt[of w] by simp

lemma claim_page_present:
  "pages s ! i \<noteq> 0 \<Longrightarrow>
   claim_page T args raw s i = Inr (pages s ! i, placement_new (pages s ! i) T args s)"
  by (simp add: claim_page_def)

lemma claim_page_overflow:
  "pages s ! i = 0 \<Longrightarrow> sint (pageSize s) = 2 ^ 63 - 1 \<Longrightarrow>
   claim_page T args raw s i = Inl (SignedOverflow, s)"
  by (simp add: claim_page_def)

lemma claim_page_null:
  "pages s ! i = 0 \<Longrightarrow> sint (pageSize s) \<noteq> 2 ^ 63 - 1 \<Longrightarrow>
   claim_page T args 0 s i =
     Inl (NullDeref, (std_malloc (pageSize s + 1) 0 s)\<lparr>pages := (pages s)[i := 0]\<rparr>)"
  using sint_max[of "pageSize s"]
  by (simp add: claim_page_def store_byte_def std_malloc_def Let_def)

lemma claim_page_fresh:
  "pages s ! i = 0 \<Longrightarrow> sint (pageSize s) \<noteq> 2 ^ 63 - 1 \<Longrightarrow> raw \<noteq> 0 \<Longrightarrow> i < length (pages s) \<Longrightarrow>
   claim_page T args raw s i =
     Inr (raw + 1,
          placement_new (raw + 1) T args
            ((std_malloc (pageSize s + 1) raw s)
               \<lparr>mem := (mem s)(raw := of_nat i), pages := (pages s)[i := raw + 1]\<rparr>))"
  using sint_max[of "pageSize s"]
  by (simp add: claim_page_def store_byte_def std_malloc_def Let_def)

lemma AllocateExtend_null:
  "AllocateExtend T args 0 s =
     Inl (NullDeref, std_aligned_alloc (alignof T) (sizeof T + 1) 0 s)"
  by (simp add: AllocateExtend_def store_byte_def Let_def)

lemma AllocateExtend_ok:
  "raw \<noteq> 0 \<Longrightarrow>
   AllocateExtend T args raw s =
     Inr (raw + 1,
          placement_new (raw + 1) T args
            ((std_aligned_alloc (alignof T) (sizeof T + 1) raw s)\<lparr>mem := (mem s)(raw := extendFlag)\<rparr>))"
  by (simp add: AllocateExtend_def store_byte_def std_aligned_alloc_def Let_def)

lemma Allocate_cases:
  "Allocate T args raw s =
     (if pageSize s < sizeof T \<or> bits s = - 1 then AllocateExtend T args raw s
      else claim_page T args raw (s\<lparr>bits := bits s OR push_bit (first_clear (bits s) 0) 1\<rparr>)
             (first_clear (bits s) 0))"
proof -
  have "first_clear (bits s) 0 < 64 \<longleftrightarrow> bits s \<noteq> - 1"
    using first_clear_full[of "bits s"] first_clear_le[of 0 "bits s"] by auto
  then show ?thesis
    unfolding Allocate_def Allocate_loop_seq[of T args raw s 0] by auto
qed

subsection \<open>Bits and head bytes\<close>

lemma bit_or_push: "bit ((w :: 64 word) OR push_bit i 1) j \<longleftrightarrow> bit w j \<or> (j = i \<and> i < 64)"
  by (auto simp add: bit_simps)

lemma bit_and_not_push: "bit ((w :: 64 word) AND NOT (push_bit i 1)) j \<longleftrightarrow> bit w j \<and> j \<noteq> i"
  by (auto simp add: bit_simps dest: bit_imp_le_length)

lemma bit_or_exp: "bit ((w :: 64 word) OR 2 ^ i) j \<longleftrightarrow> bit w j \<or> (j = i \<and> i < 64)"
  using bit_or_push[of w i j] by simp

lemma bit_and_not_exp: "bit ((w :: 64 word) AND NOT (2 ^ i)) j \<longleftrightarrow> bit w j \<and> j \<noteq> i"
  using bit_and_not_push[of w i j] by simp

lemma set_then_clear:
  "\<not> bit (w :: 64 word) i \<Longrightarrow> (w OR push_bit i 1) AND NOT (push_bit i 1) = w"
  by (rule bit_eqI) (auto simp add: bit_simps)

lemma head_index_unat: "i < 64 \<Longrightarrow> unat (of_nat i :: 8 word) = i"
  by (simp add: unat_of_nat)

lemma head_index_inj: "i < 64 \<Longrightarrow> j < 64 \<Longrightarrow> (of_nat i :: 8 word) = of_nat j \<Longrightarrow> i = j"
  by (metis head_index_unat)

lemma unat_extendFlag: "unat extendFlag = 255"
  by (simp add: extendFlag_def)

lemma head_index_not_flag: "i < 64 \<Longrightarrow> (of_nat i :: 8 word) \<noteq> extendFlag"
proof
  assume a: "i < 64" and b: "(of_nat i :: 8 word) = extendFlag"
  have "unat (of_nat i :: 8 word) = 255" unfolding b by (rule unat_extendFlag)
  then show False using head_index_unat[OF a] a by simp
qed

subsection \<open>The invariant and the steps that keep it\<close>

lemma pool_inv_length: "pool_inv s \<Longrightarrow> length (pages s) = 64"
  by (simp add: pool_inv_def)

lemma pool_inv_blocks0: "pool_inv s \<Longrightarrow> 0 \<notin> blocks s"
  by (simp add: pool_inv_def)

lemma pool_inv_page:
  "pool_inv s \<Longrightarrow> i < 64 \<Longrightarrow> pages s ! i \<noteq> 0 \<Longrightarrow>
   pages s ! i - 1 \<in> blocks s \<and> mem s (pages s ! i - 1) = of_nat i"
  unfolding pool_inv_def by blast

lemma pool_inv_bit:
  "pool_inv s \<Longrightarrow> i < 64 \<Longrightarrow>
   bit (bits s) i \<longleftrightarrow> pages s ! i \<noteq> 0 \<and> objs s (pages s ! i) \<noteq> None"
  unfolding pool_inv_def by blast

lemma pool_inv_obj:
  "pool_inv s \<Longrightarrow> objs s p \<noteq> None \<Longrightarrow>
   p \<noteq> 0 \<and> p - 1 \<in> blocks s \<and>
   (mem s (p - 1) = extendFlag \<and> p \<notin> set (pages s) \<or> (\<exists>i<64. pages s ! i = p))"
  unfolding pool_inv_def by blast

lemma pool_inv_malloc:
  "pool_inv s \<Longrightarrow> i < 64 \<Longrightarrow> pages s ! i \<noteq> 0 \<Longrightarrow>
   \<exists>m. EvMalloc m (pages s ! i - 1) \<in> set (trace s)"
  unfolding pool_inv_def by blast

lemma pool_inv_init: "pool_inv (MemoryPool n)"
  by (simp add: pool_inv_def MemoryPool_def)

lemma pool_inv_page_ge2: "pool_inv s \<Longrightarrow> i < 64 \<Longrightarrow> pages s ! i \<noteq> 0 \<Longrightarrow> 2 \<le> pages s ! i"
proof -
  assume a: "pool_inv s" "i < 64" "pages s ! i \<noteq> 0"
  then have "pages s ! i - 1 \<in> blocks s" "0 \<notin> blocks s"
    using pool_inv_page[of s i] pool_inv_blocks0[of s] by auto
  then have "pages s ! i - 1 \<noteq> 0" by metis
  then show ?thesis by simp
qed

lemma pool_inv_pages_distinct:
  "pool_inv s \<Longrightarrow> i < 64 \<Longrightarrow> j < 64 \<Longrightarrow> pages s ! i \<noteq> 0 \<Longrightarrow> pages s ! i = pages s ! j \<Longrightarrow> i = j"
proof -
  assume a: "pool_inv s" "i < 64" "j < 64" "pages s ! i \<noteq> 0" "pages s ! i = pages s ! j"
  then have "mem s (pages s ! i - 1) = of_nat i" "mem s (pages s ! j - 1) = of_nat j"
    using pool_inv_page[of s i] pool_inv_page[of s j] by auto
  with a have "(of_nat i :: 8 word) = of_nat j" by simp
  with a show ?thesis using head_index_inj[of i j] by blast
qed

lemma pool_inv_obj_ge2: "pool_inv s \<Longrightarrow> objs s p \<noteq> None \<Longrightarrow> 2 \<le> p"
proof -
  assume a: "pool_inv s" "objs s p \<noteq> None"
  then have "p - 1 \<in> blocks s" "0 \<notin> blocks s"
    using pool_inv_obj[of s p] pool_inv_blocks0[of s] by auto
  then have "p - 1 \<noteq> 0" by metis
  then show ?thesis by simp
qed

lemma pool_inv_claim_fresh:
  assumes inv: "pool_inv s" and i: "i < 64" and clear: "\<not> bit (bits s) i"
    and nopage: "pages s ! i = 0" and raw: "raw \<noteq> 0" "raw \<notin> blocks s"
    and pg: "pages s' = (pages s)[i := raw + 1]"
    and bt: "bits s' = bits s OR push_bit i 1"
    and mm: "mem s' = (mem s)(raw := of_nat i)"
    and ob: "objs s' = (objs s)(raw + 1 \<mapsto> v)"
    and bl: "blocks s' = insert raw (blocks s)"
    and tr: "set (trace s) \<subseteq> set (trace s')" "EvMalloc m raw \<in> set (trace s')"
  shows "pool_inv s'"
proof -
  have len: "length (pages s) = 64" using inv by (rule pool_inv_length)
  have other: "pages s ! j - 1 \<in> blocks s \<and> mem s (pages s ! j - 1) = of_nat j
      \<and> pages s ! j - 1 \<noteq> raw \<and> pages s ! j \<noteq> raw + 1"
    if "j < 64" "pages s ! j \<noteq> 0" for j
  proof -
    have a: "pages s ! j - 1 \<in> blocks s \<and> mem s (pages s ! j - 1) = of_nat j"
      using pool_inv_page[OF inv that] .
    then have "pages s ! j - 1 \<noteq> raw" using raw by metis
    then show ?thesis using a that by auto
  qed
  have c1: "length (pages s') = 64" using len pg by simp
  have c2: "0 \<notin> blocks s'" using pool_inv_blocks0[OF inv] raw bl by simp
  have c3: "pages s' ! j - 1 \<in> blocks s' \<and> mem s' (pages s' ! j - 1) = of_nat j"
    if "j < 64" "pages s' ! j \<noteq> 0" for j
  proof (cases "j = i")
    case True
    then show ?thesis using i len pg mm bl by simp
  next
    case False
    then have e: "pages s' ! j = pages s ! j" using pg by simp
    with that other[of j] show ?thesis using mm bl by simp
  qed
  have c4: "bit (bits s') j \<longleftrightarrow> pages s' ! j \<noteq> 0 \<and> objs s' (pages s' ! j) \<noteq> None"
    if "j < 64" for j
  proof (cases "j = i")
    case True
    then show ?thesis using i len pg bt ob by (simp add: bit_or_exp)
  next
    case False
    then have e: "pages s' ! j = pages s ! j" using pg by simp
    have b: "bit (bits s') j = bit (bits s) j" using False bt by (simp add: bit_or_exp)
    show ?thesis
    proof (cases "pages s ! j = 0")
      case True
      then show ?thesis using b e pool_inv_bit[OF inv that] by simp
    next
      case False
      then have "pages s ! j \<noteq> raw + 1" using other[OF that] by simp
      then show ?thesis using b e ob pool_inv_bit[OF inv that] by simp
    qed
  qed
  have c5: "p \<noteq> 0 \<and> p - 1 \<in> blocks s' \<and>
        (mem s' (p - 1) = extendFlag \<and> p \<notin> set (pages s') \<or> (\<exists>k<64. pages s' ! k = p))"
    if "objs s' p \<noteq> None" for p
  proof (cases "p = raw + 1")
    case True
    have "pages s' ! i = p" using True i len pg by simp
    then show ?thesis using True bl i by auto
  next
    case False
    then have o: "objs s p \<noteq> None" using that ob by simp
    note d = pool_inv_obj[OF inv o]
    have ne: "p - 1 \<noteq> raw" using d raw by metis
    have m: "mem s' (p - 1) = mem s (p - 1)" using ne mm by simp
    from d have "mem s (p - 1) = extendFlag \<and> p \<notin> set (pages s) \<or> (\<exists>k<64. pages s ! k = p)"
      by simp
    then show ?thesis
    proof
      assume a: "mem s (p - 1) = extendFlag \<and> p \<notin> set (pages s)"
      have "set (pages s') \<subseteq> insert (raw + 1) (set (pages s))"
        unfolding pg by (rule set_update_subset_insert)
      then have "p \<notin> set (pages s')" using a False by auto
      then show ?thesis using d a m bl by simp
    next
      assume "\<exists>k<64. pages s ! k = p"
      then obtain k where k: "k < 64" "pages s ! k = p" by blast
      then have "k \<noteq> i" using nopage d by auto
      then have "pages s' ! k = p" using k pg by simp
      then show ?thesis using d bl k by auto
    qed
  qed
  have c6: "\<exists>m. EvMalloc m (pages s' ! j - 1) \<in> set (trace s')"
    if "j < 64" "pages s' ! j \<noteq> 0" for j
  proof (cases "j = i")
    case True
    then show ?thesis using i len pg tr(2) by auto
  next
    case False
    then have e: "pages s' ! j = pages s ! j" using pg by simp
    with that pool_inv_malloc[OF inv that(1)] tr(1) show ?thesis by auto
  qed
  show ?thesis unfolding pool_inv_def using c1 c2 c3 c4 c5 c6 by blast
qed

lemma pool_inv_claim_present:
  assumes inv: "pool_inv s" and i: "i < 64" and clear: "\<not> bit (bits s) i"
    and page: "pages s ! i \<noteq> 0"
    and pg: "pages s' = pages s"
    and bt: "bits s' = bits s OR push_bit i 1"
    and mm: "mem s' = mem s"
    and ob: "objs s' = (objs s)(pages s ! i \<mapsto> v)"
    and bl: "blocks s' = blocks s"
    and tr: "set (trace s) \<subseteq> set (trace s')"
  shows "pool_inv s'"
proof -
  have c4: "bit (bits s') j \<longleftrightarrow> pages s' ! j \<noteq> 0 \<and> objs s' (pages s' ! j) \<noteq> None"
    if "j < 64" for j
  proof (cases "j = i")
    case True
    then show ?thesis using i page pg bt ob by (simp add: bit_or_exp)
  next
    case False
    have b: "bit (bits s') j = bit (bits s) j" using False bt by (simp add: bit_or_exp)
    show ?thesis
    proof (cases "pages s ! j = 0")
      case True
      then show ?thesis using b pg pool_inv_bit[OF inv that] by simp
    next
      case nz: False
      have "pages s ! j \<noteq> pages s ! i"
        using pool_inv_pages_distinct[OF inv that i nz] False by blast
      then show ?thesis using b pg ob pool_inv_bit[OF inv that] by simp
    qed
  qed
  have c5: "p \<noteq> 0 \<and> p - 1 \<in> blocks s' \<and>
        (mem s' (p - 1) = extendFlag \<and> p \<notin> set (pages s') \<or> (\<exists>k<64. pages s' ! k = p))"
    if "objs s' p \<noteq> None" for p
  proof (cases "p = pages s ! i")
    case True
    then show ?thesis using pool_inv_page[OF inv i page] page i pg bl by auto
  next
    case False
    then have o: "objs s p \<noteq> None" using that ob by simp
    show ?thesis using pool_inv_obj[OF inv o] pg mm bl by simp
  qed
  have c3: "pages s' ! j - 1 \<in> blocks s' \<and> mem s' (pages s' ! j - 1) = of_nat j"
    if "j < 64" "pages s' ! j \<noteq> 0" for j
    using pool_inv_page[OF inv that(1)] that(2) pg mm bl by simp
  have c6: "\<exists>m. EvMalloc m (pages s' ! j - 1) \<in> set (trace s')"
    if "j < 64" "pages s' ! j \<noteq> 0" for j
    using pool_inv_malloc[OF inv that(1)] that(2) pg tr by auto
  show ?thesis unfolding pool_inv_def
    using pool_inv_length[OF inv] pool_inv_blocks0[OF inv] pg bl c3 c4 c5 c6 by simp
qed

lemma pool_inv_extend:
  assumes inv: "pool_inv s" and raw: "raw \<noteq> 0" "raw \<notin> blocks s"
    and pg: "pages s' = pages s"
    and bt: "bits s' = bits s"
    and mm: "mem s' = (mem s)(raw := extendFlag)"
    and ob: "objs s' = (objs s)(raw + 1 \<mapsto> v)"
    and bl: "blocks s' = insert raw (blocks s)"
    and tr: "set (trace s) \<subseteq> set (trace s')"
  shows "pool_inv s'"
proof -
  have other: "pages s ! j - 1 \<in> blocks s \<and> mem s (pages s ! j - 1) = of_nat j
      \<and> pages s ! j - 1 \<noteq> raw \<and> pages s ! j \<noteq> raw + 1"
    if "j < 64" "pages s ! j \<noteq> 0" for j
  proof -
    have a: "pages s ! j - 1 \<in> blocks s \<and> mem s (pages s ! j - 1) = of_nat j"
      using pool_inv_page[OF inv that] .
    then have "pages s ! j - 1 \<noteq> raw" using raw by metis
    then show ?thesis using a that by auto
  qed
  have c3: "pages s' ! j - 1 \<in> blocks s' \<and> mem s' (pages s' ! j - 1) = of_nat j"
    if "j < 64" "pages s' ! j \<noteq> 0" for j
    using other[of j] that pg mm bl by simp
  have c4: "bit (bits s') j \<longleftrightarrow> pages s' ! j \<noteq> 0 \<and> objs s' (pages s' ! j) \<noteq> None"
    if "j < 64" for j
  proof (cases "pages s ! j = 0")
    case True
    then show ?thesis using bt pg pool_inv_bit[OF inv that] by simp
  next
    case False
    then have "pages s ! j \<noteq> raw + 1" using other[OF that] by simp
    then show ?thesis using bt pg ob pool_inv_bit[OF inv that] by simp
  qed
  have notpage: "raw + 1 \<notin> set (pages s)"
  proof
    assume "raw + 1 \<in> set (pages s)"
    then obtain k where k: "k < length (pages s)" "pages s ! k = raw + 1"
      by (auto simp: in_set_conv_nth)
    then have "k < 64" using pool_inv_length[OF inv] by simp
    then show False using other[of k] k by simp
  qed
  have c5: "p \<noteq> 0 \<and> p - 1 \<in> blocks s' \<and>
        (mem s' (p - 1) = extendFlag \<and> p \<notin> set (pages s') \<or> (\<exists>k<64. pages s' ! k = p))"
    if "objs s' p \<noteq> None" for p
  proof (cases "p = raw + 1")
    case True
    then show ?thesis using notpage pg mm bl by simp
  next
    case False
    then have o: "objs s p \<noteq> None" using that ob by simp
    note d = pool_inv_obj[OF inv o]
    have ne: "p - 1 \<noteq> raw" using d raw by metis
    then show ?thesis using d pg mm bl by simp
  qed
  have c6: "\<exists>m. EvMalloc m (pages s' ! j - 1) \<in> set (trace s')"
    if "j < 64" "pages s' ! j \<noteq> 0" for j
    using pool_inv_malloc[OF inv that(1)] that(2) pg tr by auto
  show ?thesis unfolding pool_inv_def
    using pool_inv_length[OF inv] pool_inv_blocks0[OF inv] raw pg bl c3 c4 c5 c6 by simp
qed

lemma Deallocate_null: "Deallocate 0 s = Inl (NullDeref, s)"
  by (simp add: Deallocate_def)

lemma Deallocate_extend:
  "ptr \<noteq> 0 \<Longrightarrow> mem s (ptr - 1) = extendFlag \<Longrightarrow>
   Deallocate ptr s = Inr (std_free (ptr - 1) (destroy ptr s))"
  by (simp add: Deallocate_def destroy_def Let_def)

lemma Deallocate_slot:
  "ptr \<noteq> 0 \<Longrightarrow> mem s (ptr - 1) \<noteq> extendFlag \<Longrightarrow> unat (mem s (ptr - 1)) < 64 \<Longrightarrow>
   Deallocate ptr s =
     Inr ((destroy ptr s)\<lparr>bits := bits s AND NOT (push_bit (unat (mem s (ptr - 1))) 1)\<rparr>)"
  by (simp add: Deallocate_def destroy_def Let_def)

lemma Deallocate_shift:
  "ptr \<noteq> 0 \<Longrightarrow> mem s (ptr - 1) \<noteq> extendFlag \<Longrightarrow> 64 \<le> unat (mem s (ptr - 1)) \<Longrightarrow>
   Deallocate ptr s = Inl (ShiftOutOfRange, destroy ptr s)"
  by (simp add: Deallocate_def destroy_def Let_def)

text \<open>What the invariant says of a live object: its head byte is the flag and the
  object is outside the table, or it is the index of the page that holds it.\<close>

lemma pool_inv_live:
  assumes inv: "pool_inv s" and o: "objs s p \<noteq> None"
  shows "p \<noteq> 0 \<and> p - 1 \<in> blocks s \<and>
     (mem s (p - 1) = extendFlag \<and> p \<notin> set (pages s) \<or>
      (\<exists>i<64. pages s ! i = p \<and> mem s (p - 1) = of_nat i \<and> bit (bits s) i))"
proof -
  note d = pool_inv_obj[OF inv o]
  from d have "mem s (p - 1) = extendFlag \<and> p \<notin> set (pages s) \<or> (\<exists>i<64. pages s ! i = p)"
    by simp
  then show ?thesis
  proof
    assume "mem s (p - 1) = extendFlag \<and> p \<notin> set (pages s)"
    then show ?thesis using d by simp
  next
    assume "\<exists>i<64. pages s ! i = p"
    then obtain i where i: "i < 64" "pages s ! i = p" by blast
    then have nz: "pages s ! i \<noteq> 0" using d by simp
    have "mem s (p - 1) = of_nat i" using pool_inv_page[OF inv i(1) nz] i by simp
    moreover have "bit (bits s) i" using pool_inv_bit[OF inv i(1)] nz i o by simp
    ultimately show ?thesis using d i by blast
  qed
qed

lemma pool_inv_dealloc_extend:
  assumes inv: "pool_inv s" and o: "objs s p \<noteq> None" and flag: "mem s (p - 1) = extendFlag"
    and pg: "pages s' = pages s"
    and bt: "bits s' = bits s"
    and mm: "mem s' = mem s"
    and ob: "objs s' = (objs s)(p := None)"
    and bl: "blocks s' = blocks s - {p - 1}"
    and tr: "set (trace s) \<subseteq> set (trace s')"
  shows "pool_inv s'"
proof -
  note l = pool_inv_live[OF inv o]
  have p2: "2 \<le> p" using pool_inv_obj_ge2[OF inv o] .
  have notpage: "p \<notin> set (pages s)"
  proof -
    have "\<not> (\<exists>i<64. pages s ! i = p \<and> mem s (p - 1) = of_nat i \<and> bit (bits s) i)"
      using flag head_index_not_flag by metis
    then show ?thesis using l by blast
  qed
  have np: "pages s ! j \<noteq> p" if "j < 64" for j
    using notpage that pool_inv_length[OF inv] by (metis nth_mem)
  have c3: "pages s' ! j - 1 \<in> blocks s' \<and> mem s' (pages s' ! j - 1) = of_nat j"
    if "j < 64" "pages s' ! j \<noteq> 0" for j
  proof -
    have nz: "pages s ! j \<noteq> 0" using that pg by simp
    have "2 \<le> pages s ! j" using pool_inv_page_ge2[OF inv that(1) nz] .
    then have "pages s ! j - 1 \<noteq> p - 1" using np[OF that(1)] p2 by arith
    then show ?thesis using pool_inv_page[OF inv that(1) nz] pg mm bl by simp
  qed
  have c4: "bit (bits s') j \<longleftrightarrow> pages s' ! j \<noteq> 0 \<and> objs s' (pages s' ! j) \<noteq> None"
    if "j < 64" for j
    using pool_inv_bit[OF inv that] np[OF that] bt pg ob by simp
  have c5: "q \<noteq> 0 \<and> q - 1 \<in> blocks s' \<and>
        (mem s' (q - 1) = extendFlag \<and> q \<notin> set (pages s') \<or> (\<exists>k<64. pages s' ! k = q))"
    if "objs s' q \<noteq> None" for q
  proof -
    have qp: "q \<noteq> p" and oq: "objs s q \<noteq> None" using that ob by (auto split: if_splits)
    have "2 \<le> q" using pool_inv_obj_ge2[OF inv oq] .
    then have "q - 1 \<noteq> p - 1" using qp p2 by arith
    then show ?thesis using pool_inv_obj[OF inv oq] pg mm bl by simp
  qed
  have c6: "\<exists>m. EvMalloc m (pages s' ! j - 1) \<in> set (trace s')"
    if "j < 64" "pages s' ! j \<noteq> 0" for j
    using pool_inv_malloc[OF inv that(1)] that(2) pg tr by auto
  show ?thesis unfolding pool_inv_def
    using pool_inv_length[OF inv] pool_inv_blocks0[OF inv] pg bl c3 c4 c5 c6 by simp
qed

lemma pool_inv_dealloc_slot:
  assumes inv: "pool_inv s" and o: "objs s p \<noteq> None" and i: "i < 64" and page: "pages s ! i = p"
    and pg: "pages s' = pages s"
    and bt: "bits s' = bits s AND NOT (push_bit i 1)"
    and mm: "mem s' = mem s"
    and ob: "objs s' = (objs s)(p := None)"
    and bl: "blocks s' = blocks s"
    and tr: "set (trace s) \<subseteq> set (trace s')"
  shows "pool_inv s'"
proof -
  have pnz: "p \<noteq> 0" using pool_inv_obj[OF inv o] by simp
  have c3: "pages s' ! j - 1 \<in> blocks s' \<and> mem s' (pages s' ! j - 1) = of_nat j"
    if "j < 64" "pages s' ! j \<noteq> 0" for j
    using pool_inv_page[OF inv that(1)] that(2) pg mm bl by simp
  have c4: "bit (bits s') j \<longleftrightarrow> pages s' ! j \<noteq> 0 \<and> objs s' (pages s' ! j) \<noteq> None"
    if "j < 64" for j
  proof (cases "j = i")
    case True
    then show ?thesis using bt pg ob page by (simp add: bit_and_not_exp)
  next
    case False
    have b: "bit (bits s') j = bit (bits s) j" using False bt by (simp add: bit_and_not_exp)
    show ?thesis
    proof (cases "pages s ! j = 0")
      case True
      then show ?thesis using b pg pool_inv_bit[OF inv that] by simp
    next
      case nz: False
      have "pages s ! j \<noteq> pages s ! i"
        using pool_inv_pages_distinct[OF inv that i nz] False by blast
      then show ?thesis using b pg ob page pool_inv_bit[OF inv that] by simp
    qed
  qed
  have c5: "q \<noteq> 0 \<and> q - 1 \<in> blocks s' \<and>
        (mem s' (q - 1) = extendFlag \<and> q \<notin> set (pages s') \<or> (\<exists>k<64. pages s' ! k = q))"
    if "objs s' q \<noteq> None" for q
  proof -
    have oq: "objs s q \<noteq> None" using that ob by (auto split: if_splits)
    show ?thesis using pool_inv_obj[OF inv oq] pg mm bl by simp
  qed
  have c6: "\<exists>m. EvMalloc m (pages s' ! j - 1) \<in> set (trace s')"
    if "j < 64" "pages s' ! j \<noteq> 0" for j
    using pool_inv_malloc[OF inv that(1)] that(2) pg tr by auto
  show ?thesis unfolding pool_inv_def
    using pool_inv_length[OF inv] pool_inv_blocks0[OF inv] pg bl c3 c4 c5 c6 by simp
qed

lemma first_clear_0_lt: "bits s \<noteq> - 1 \<Longrightarrow> first_clear (bits s) 0 < 64"
  using first_clear_full[of "bits s"] first_clear_le[of 0 "bits s"] by auto

lemma Allocate_inv:
  assumes inv: "pool_inv s" and fresh: "raw \<notin> blocks s"
    and al: "Allocate T args raw s = Inr (p, s')"
  shows "pool_inv s'"
proof (cases "pageSize s < sizeof T \<or> bits s = - 1")
  case True
  then have e: "AllocateExtend T args raw s = Inr (p, s')" using al by (simp add: Allocate_cases)
  have raw: "raw \<noteq> 0" using e AllocateExtend_null[of T args s] by (cases "raw = 0") auto
  have s': "s' = placement_new (raw + 1) T args
            ((std_aligned_alloc (alignof T) (sizeof T + 1) raw s)\<lparr>mem := (mem s)(raw := extendFlag)\<rparr>)"
    using e AllocateExtend_ok[OF raw, of T args s] by auto
  show ?thesis
    by (rule pool_inv_extend[OF inv raw fresh, where v = "construct T args"])
       (auto simp add: s' placement_new_def std_aligned_alloc_def raw)
next
  case False
  define i where "i = first_clear (bits s) 0"
  define s0 where "s0 = s\<lparr>bits := bits s OR push_bit i 1\<rparr>"
  have i: "i < 64" using False first_clear_0_lt[of s] by (simp add: i_def)
  have clear: "\<not> bit (bits s) i" using first_clear_clear[of "bits s" 0] i by (simp add: i_def)
  have c: "claim_page T args raw s0 i = Inr (p, s')"
    using al False by (simp add: Allocate_cases i_def s0_def)
  have len: "i < length (pages s0)" using pool_inv_length[OF inv] i by (simp add: s0_def)
  show ?thesis
  proof (cases "pages s ! i = 0")
    case nopage: True
    then have np0: "pages s0 ! i = 0" by (simp add: s0_def)
    have nmax: "sint (pageSize s0) \<noteq> 2 ^ 63 - 1"
      using c claim_page_overflow[OF np0, of T args raw] by auto
    have raw: "raw \<noteq> 0" using c claim_page_null[OF np0 nmax, of T args] by (cases "raw = 0") auto
    have s': "s' = placement_new (raw + 1) T args
            ((std_malloc (pageSize s0 + 1) raw s0)
               \<lparr>mem := (mem s0)(raw := of_nat i), pages := (pages s0)[i := raw + 1]\<rparr>)"
      using c claim_page_fresh[OF np0 nmax raw len, of T args] by auto
    show ?thesis
      by (rule pool_inv_claim_fresh[OF inv i clear nopage raw fresh, where v = "construct T args"
              and m = "pageSize s + 1"])
         (auto simp add: s' s0_def placement_new_def std_malloc_def raw)
  next
    case page: False
    then have p0: "pages s0 ! i \<noteq> 0" by (simp add: s0_def)
    have s': "s' = placement_new (pages s0 ! i) T args s0"
      using c claim_page_present[OF p0, of T args raw] by auto
    show ?thesis
      by (rule pool_inv_claim_present[OF inv i clear page, where v = "construct T args"])
         (auto simp add: s' s0_def placement_new_def)
  qed
qed

lemma Deallocate_live:
  assumes inv: "pool_inv s" and o: "objs s p \<noteq> None"
  shows "\<exists>s'. Deallocate p s = Inr s' \<and> pool_inv s'"
proof -
  note l = pool_inv_live[OF inv o]
  then have pnz: "p \<noteq> 0" by simp
  show ?thesis
  proof (cases "mem s (p - 1) = extendFlag")
    case True
    have "pool_inv (std_free (p - 1) (destroy p s))"
      by (rule pool_inv_dealloc_extend[OF inv o True]) (auto simp add: std_free_def destroy_def)
    then show ?thesis using Deallocate_extend[OF pnz True] by simp
  next
    case False
    then obtain i where i: "i < 64" "pages s ! i = p" "mem s (p - 1) = of_nat i"
      using l by blast
    have u: "unat (mem s (p - 1)) = i" using i head_index_unat by simp
    have "pool_inv ((destroy p s)\<lparr>bits := bits s AND NOT (push_bit i 1)\<rparr>)"
      by (rule pool_inv_dealloc_slot[OF inv o i(1,2)]) (auto simp add: destroy_def)
    then show ?thesis using Deallocate_slot[OF pnz False] u i by simp
  qed
qed

lemma step_inv: "pool_inv s \<Longrightarrow> step s x = Some s' \<Longrightarrow> pool_inv s'"
proof (cases x)
  case (OpAllocate T args raw)
  assume "pool_inv s" "step s x = Some s'"
  then show ?thesis using OpAllocate Allocate_inv[of s raw T args]
    by (auto split: if_splits sum.splits)
next
  case (OpDeallocate ptr)
  assume "pool_inv s" "step s x = Some s'"
  then show ?thesis using OpDeallocate Deallocate_live[of s ptr]
    by (auto split: if_splits sum.splits)
qed

lemma run_inv: "pool_inv s \<Longrightarrow> run s xs = Some s' \<Longrightarrow> pool_inv s'"
proof (induction xs arbitrary: s)
  case Nil
  then show ?case by simp
next
  case (Cons x xs)
  then show ?case using step_inv[of s x] by (auto split: option.splits)
qed

subsection \<open>What a call logs and returns\<close>

lemma took_overflow_extend: "took_overflow s (AllocateExtend T args raw s)"
  by (cases "raw = 0")
     (simp_all add: took_overflow_def state_of_def events_since_def AllocateExtend_null
        AllocateExtend_ok std_aligned_alloc_def placement_new_def)


lemma claim_page_ptr:
  "claim_page T args raw s0 i = Inr (p, s') \<Longrightarrow>
   p = pages s' ! i \<and> objs s' p = Some (construct T args) \<and> bits s' = bits s0"
  by (auto simp add: claim_page_def store_byte_def std_malloc_def placement_new_def Let_def
        split: if_splits)



lemma all_bits_iff: "(\<forall>i<64. bit (w :: 64 word) i) \<longleftrightarrow> w = - 1"
proof
  assume a: "\<forall>i<64. bit w i"
  show "w = - 1"
  proof (rule bit_eqI)
    fix n assume "possible_bit TYPE(64 word) n"
    then have "n < 64" by (simp add: possible_bit_word)
    then show "bit w n = bit (- 1 :: 64 word) n" using a by simp
  qed
next
  assume "w = - 1"
  then show "\<forall>i<64. bit w i" by simp
qed



lemma fault_claim_page:
  "fault_of (claim_page T args raw s0 i) = Some NullDeref \<longleftrightarrow>
     pages s0 ! i = 0 \<and> sint (pageSize s0) \<noteq> 2 ^ 63 - 1 \<and> raw = 0"
  using sint_max[of "pageSize s0"]
  by (simp add: fault_of_def claim_page_def store_byte_def std_malloc_def Let_def)

lemma null_event_claim_page:
  "trace s0 = trace s \<Longrightarrow>
   list_ex returned_null (events_since s (state_of (claim_page T args raw s0 i))) \<longleftrightarrow>
     pages s0 ! i = 0 \<and> sint (pageSize s0) \<noteq> 2 ^ 63 - 1 \<and> raw = 0"
  using sint_max[of "pageSize s0"]
  by (simp add: state_of_def events_since_def claim_page_def store_byte_def std_malloc_def
        placement_new_def Let_def)

lemma fault_extend: "fault_of (AllocateExtend T args raw s) = Some NullDeref \<longleftrightarrow> raw = 0"
  by (simp add: fault_of_def AllocateExtend_def store_byte_def Let_def)

lemma null_event_extend:
  "list_ex returned_null (events_since s (state_of (AllocateExtend T args raw s))) \<longleftrightarrow> raw = 0"
  by (simp add: state_of_def events_since_def AllocateExtend_def store_byte_def
        std_aligned_alloc_def placement_new_def Let_def)

lemma extend_ptr:
  "AllocateExtend T args raw s = Inr (p, s') \<Longrightarrow>
   p = raw + 1 \<and> objs s' p = Some (construct T args) \<and>
   last (trace s') = EvConstruct p (construct T args)"
  by (auto simp add: AllocateExtend_def store_byte_def std_aligned_alloc_def placement_new_def
        Let_def split: if_splits)

lemma claim_page_last:
  "claim_page T args raw s0 i = Inr (p, s') \<Longrightarrow>
   last (trace s') = EvConstruct p (construct T args)"
  by (auto simp add: claim_page_def store_byte_def std_malloc_def placement_new_def Let_def
        split: if_splits)

lemma claim_page_fresh_events:
  assumes "claim_page T args raw s0 i = Inr (p, s')" "pages s0 ! i = 0" "i < length (pages s0)"
  shows "raw \<noteq> 0 \<and> p = raw + 1 \<and> pages s' = (pages s0)[i := raw + 1] \<and>
     mem s' = (mem s0)(raw := of_nat i) \<and> pageSize s' = pageSize s0 \<and> bits s' = bits s0 \<and>
     trace s' = trace s0 @ [EvMalloc (pageSize s0 + 1) raw, EvConstruct p (construct T args)]"
  using assms
  by (auto simp add: claim_page_def store_byte_def std_malloc_def placement_new_def Let_def
        split: if_splits)

lemma claim_page_present_events:
  assumes "claim_page T args raw s0 i = Inr (p, s')" "pages s0 ! i \<noteq> 0"
  shows "p = pages s0 ! i \<and> pages s' = pages s0 \<and> mem s' = mem s0 \<and>
     pageSize s' = pageSize s0 \<and> bits s' = bits s0 \<and>
     trace s' = trace s0 @ [EvConstruct p (construct T args)]"
  using assms by (auto simp add: claim_page_def placement_new_def)

lemma Allocate_slot_form:
  assumes al: "Allocate T args raw s = Inr (p, s')"
    and no: "\<not> took_overflow s (Allocate T args raw s)"
  shows "\<not> pageSize s < sizeof T \<and> bits s \<noteq> - 1 \<and> first_clear (bits s) 0 < 64 \<and>
     \<not> bit (bits s) (first_clear (bits s) 0) \<and>
     claim_page T args raw (s\<lparr>bits := bits s OR push_bit (first_clear (bits s) 0) 1\<rparr>)
       (first_clear (bits s) 0) = Inr (p, s')"
proof -
  have c: "\<not> (pageSize s < sizeof T \<or> bits s = - 1)"
    using no took_overflow_extend[of s T args raw] by (auto simp add: Allocate_cases)
  then have lt: "first_clear (bits s) 0 < 64" using first_clear_0_lt[of s] by simp
  then have "\<not> bit (bits s) (first_clear (bits s) 0)" by (rule first_clear_clear)
  then show ?thesis using c lt al by (simp add: Allocate_cases)
qed

subsection \<open>The examples\<close>

lemmas eval_simps =
  Allocate_def Allocate_loop.simps AllocateExtend_def claim_page_def Deallocate_def
  MemoryPool_def std_malloc_def std_aligned_alloc_def std_free_def store_byte_def
  placement_new_def destroy_def pageOffset_def extendFlag_def Let_def

lemma example_pool_run: "run (MemoryPool 512) example_ops = Some example_pool"
  by (simp add: example_pool_def example_ops_def eval_simps Point_def)

lemma example_overflow_pool_run:
  "run (MemoryPool 8) [OpAllocate Point (3, 4) 32] = Some example_overflow_pool"
  by (simp add: example_overflow_pool_def eval_simps Point_def)

lemma example_pool_fields:
  "bits example_pool = 3" "pages example_pool ! 0 = 33" "pages example_pool ! 1 = 65"
  "mem example_pool 32 = 0" "mem example_pool 64 = 1"
  "objs example_pool 33 = Some \<lparr>px = 7, py = 8\<rparr>" "objs example_pool 65 = Some \<lparr>px = 5, py = 6\<rparr>"
  "blocks example_pool = {32, 64}"
  by (simp_all add: example_pool_def example_ops_def eval_simps Point_def insert_commute)

lemma example_overflow_pool_fields:
  "bits example_overflow_pool = 0" "mem example_overflow_pool 32 = 255"
  "objs example_overflow_pool 33 = Some \<lparr>px = 3, py = 4\<rparr>"
  "blocks example_overflow_pool = {32}"
  by (simp_all add: example_overflow_pool_def eval_simps Point_def)

subsection \<open>The destructor of the pool\<close>

lemma dtor_loop_fields:
  "pages (MemoryPool_dtor_loop s i) = pages s \<and> objs (MemoryPool_dtor_loop s i) = objs s \<and>
   bits (MemoryPool_dtor_loop s i) = bits s \<and> mem (MemoryPool_dtor_loop s i) = mem s \<and>
   pageSize (MemoryPool_dtor_loop s i) = pageSize s"
proof (induction s i rule: MemoryPool_dtor_loop.induct)
  case (1 s i)
  show ?case
  proof (cases "i < 64")
    case True
    then show ?thesis
      using 1 by (subst (1 2 3 4 5) MemoryPool_dtor_loop.simps) (simp add: std_free_def)
  next
    case False
    then show ?thesis by (subst (1 2 3 4 5) MemoryPool_dtor_loop.simps) simp
  qed
qed

lemma dtor_loop_trace:
  "trace (MemoryPool_dtor_loop s i) =
     trace s @ map (\<lambda>j. EvFree (pages s ! j - 1)) (filter (\<lambda>j. pages s ! j \<noteq> 0) [i..<64])"
proof (induction s i rule: MemoryPool_dtor_loop.induct)
  case (1 s i)
  show ?case
  proof (cases "i < 64")
    case True
    then have u: "[i..<64] = i # [i + 1..<64]" by (simp add: upt_conv_Cons)
    show ?thesis
      using 1 True unfolding u
      by (subst MemoryPool_dtor_loop.simps) (simp add: std_free_def)
  next
    case False
    then show ?thesis by (subst MemoryPool_dtor_loop.simps) simp
  qed
qed

lemma dtor_loop_blocks:
  "blocks (MemoryPool_dtor_loop s i) =
     blocks s - {pages s ! j - 1 | j. i \<le> j \<and> j < 64 \<and> pages s ! j \<noteq> 0}"
proof (induction s i rule: MemoryPool_dtor_loop.induct)
  case (1 s i)
  show ?case
  proof (cases "i < 64")
    case True
    have split: "{pages s ! j - 1 | j. i \<le> j \<and> j < 64 \<and> pages s ! j \<noteq> 0} =
        (if pages s ! i \<noteq> 0 then {pages s ! i - 1} else {}) \<union>
        {pages s ! j - 1 | j. i + 1 \<le> j \<and> j < 64 \<and> pages s ! j \<noteq> 0}"
      using True by (auto simp add: Suc_le_eq le_less)
    show ?thesis
      using 1 True unfolding split
      by (subst MemoryPool_dtor_loop.simps) (auto simp add: std_free_def)
  next
    case False
    then show ?thesis by (subst MemoryPool_dtor_loop.simps) auto
  qed
qed

subsection \<open>Pages and calls of malloc\<close>

lemma filter_nonzero_update:
  "i < length xs \<Longrightarrow> xs ! i = (0::nat) \<Longrightarrow> v \<noteq> 0 \<Longrightarrow>
   length (filter (\<lambda>p. p \<noteq> 0) (xs[i := v])) = Suc (length (filter (\<lambda>p. p \<noteq> 0) xs))"
proof (induction xs arbitrary: i)
  case Nil
  then show ?case by simp
next
  case (Cons x xs)
  then show ?case by (cases i) auto
qed

lemma distinct_filter_nonzero:
  "(\<And>i j. i < length xs \<Longrightarrow> j < length xs \<Longrightarrow> xs ! i \<noteq> 0 \<Longrightarrow> xs ! i = xs ! j \<Longrightarrow> i = j) \<Longrightarrow>
   distinct (filter (\<lambda>p. p \<noteq> (0::nat)) xs)"
proof (induction xs)
  case Nil
  then show ?case by simp
next
  case (Cons x xs)
  have tl: "distinct (filter (\<lambda>p. p \<noteq> 0) xs)"
  proof (rule Cons.IH)
    fix i j assume "i < length xs" "j < length xs" "xs ! i \<noteq> 0" "xs ! i = xs ! j"
    then show "i = j" using Cons.prems[of "Suc i" "Suc j"] by simp
  qed
  have "x \<notin> set xs" if "x \<noteq> 0"
  proof
    assume "x \<in> set xs"
    then obtain j where "j < length xs" "xs ! j = x" by (auto simp: in_set_conv_nth)
    then show False using Cons.prems[of 0 "Suc j"] that by simp
  qed
  then show ?case using tl by auto
qed

lemma nonzero_pages_as_indices:
  "length (pages s) = 64 \<Longrightarrow>
   map (\<lambda>j. f (pages s ! j)) (filter (\<lambda>j. pages s ! j \<noteq> 0) [0..<64]) =
   map f (filter (\<lambda>p. p \<noteq> 0) (pages s))"
proof -
  assume len: "length (pages s) = 64"
  have "map f (filter (\<lambda>p. p \<noteq> 0) (map (\<lambda>j. pages s ! j) [0..<length (pages s)])) =
        map (\<lambda>j. f (pages s ! j)) (filter (\<lambda>j. pages s ! j \<noteq> 0) [0..<length (pages s)])"
    by (simp add: filter_map comp_def)
  then show ?thesis unfolding map_nth using len by simp
qed

lemma extend_events:
  "AllocateExtend T args raw s = Inr (p, s') \<Longrightarrow>
   pages s' = pages s \<and>
   trace s' = trace s @ [EvAlignedAlloc (alignof T) (sizeof T + 1) raw, EvConstruct p (construct T args)]"
  by (auto simp add: AllocateExtend_def store_byte_def std_aligned_alloc_def placement_new_def
        Let_def split: if_splits)

lemma Deallocate_events:
  "Deallocate ptr s = Inr s' \<Longrightarrow>
   pages s' = pages s \<and>
   (trace s' = trace s @ [EvDestruct ptr] \<or> trace s' = trace s @ [EvDestruct ptr, EvFree (ptr - 1)])"
  by (auto simp add: Deallocate_def destroy_def std_free_def Let_def split: if_splits)

lemma Allocate_count:
  assumes inv: "pool_inv s" and cnt: "count_inv s"
    and al: "Allocate T args raw s = Inr (p, s')"
  shows "count_inv s'"
proof (cases "pageSize s < sizeof T \<or> bits s = - 1")
  case True
  then have "AllocateExtend T args raw s = Inr (p, s')" using al by (simp add: Allocate_cases)
  then show ?thesis using extend_events[of T args raw s p s'] cnt by (simp add: count_inv_def)
next
  case False
  define i where "i = first_clear (bits s) 0"
  define s0 where "s0 = s\<lparr>bits := bits s OR push_bit i 1\<rparr>"
  have i: "i < 64" using False first_clear_0_lt[of s] by (simp add: i_def)
  have c: "claim_page T args raw s0 i = Inr (p, s')"
    using al False by (simp add: Allocate_cases i_def s0_def)
  have li: "i < length (pages s0)" using pool_inv_length[OF inv] i by (simp add: s0_def)
  show ?thesis
  proof (cases "pages s0 ! i = 0")
    case True
    note e = claim_page_fresh_events[OF c True li]
    have "length (filter (\<lambda>p. p \<noteq> 0) (pages s')) = Suc (length (filter (\<lambda>p. p \<noteq> 0) (pages s0)))"
      using e filter_nonzero_update[OF li True, of "raw + 1"] by simp
    then show ?thesis using e cnt by (simp add: count_inv_def s0_def)
  next
    case False
    note e = claim_page_present_events[OF c False]
    then show ?thesis using cnt by (simp add: count_inv_def s0_def)
  qed
qed

lemma step_count:
  assumes "pool_inv s" "count_inv s" "step s x = Some s'"
  shows "count_inv s'"
proof (cases x)
  case (OpAllocate T args raw)
  then show ?thesis using assms Allocate_count[of s T args raw]
    by (auto split: if_splits sum.splits)
next
  case (OpDeallocate ptr)
  then have "Deallocate ptr s = Inr s'" using assms by (auto split: if_splits sum.splits)
  then show ?thesis using Deallocate_events[of ptr s s'] assms(2) by (auto simp add: count_inv_def)
qed

lemma run_count: "pool_inv s \<Longrightarrow> count_inv s \<Longrightarrow> run s xs = Some s' \<Longrightarrow> count_inv s'"
proof (induction xs arbitrary: s)
  case Nil
  then show ?case by simp
next
  case (Cons x xs)
  then show ?case using step_inv[of s x] step_count[of s x] by (auto split: option.splits)
qed

lemma count_inv_init: "count_inv (MemoryPool n)"
  by (simp add: count_inv_def MemoryPool_def)

subsection \<open>Alignment\<close>

lemma next_not_aligned: "1 < (a::nat) \<Longrightarrow> a dvd r \<Longrightarrow> \<not> a dvd r + 1"
proof
  assume a: "1 < a" "a dvd r" "a dvd r + 1"
  then have "a dvd 1" using dvd_add_right_iff[of a r 1] by simp
  then show False using a(1) by simp
qed

lemma AllocateExtend_effect:
  assumes "raw \<noteq> 0"
  shows "\<exists>s'. AllocateExtend T args raw s = Inr (raw + 1, s') \<and>
     events_since s s' =
       [EvAlignedAlloc (alignof T) (sizeof T + 1) raw, EvConstruct (raw + 1) (construct T args)] \<and>
     mem s' raw = extendFlag \<and> objs s' (raw + 1) = Some (construct T args) \<and>
     (\<forall>i<64. extendFlag \<noteq> of_nat i) \<and>
     (1 < alignof T \<and> alignof T dvd raw \<longrightarrow> \<not> alignof T dvd raw + 1)"
proof -
  have nf: "extendFlag \<noteq> of_nat i" if "i < 64" for i
    using head_index_not_flag[OF that] by simp
  show ?thesis
    using AllocateExtend_ok[OF assms, of T args s] nf next_not_aligned[of "alignof T" raw]
    by (simp add: events_since_def placement_new_def std_aligned_alloc_def)
qed

section \<open>The claims of the specification\<close>




text \<open>
  C2. For a pointer that a run of the pool obtained from \<^verbatim>\<open>Allocate\<close> and has not yet
  deallocated, \<^verbatim>\<open>Deallocate\<close> returns normally and first runs the destructor on the
  object. If the head byte before the pointer is \<^verbatim>\<open>0xFF\<close> it then frees the block that
  starts at the head byte and leaves \<^verbatim>\<open>bits_\<close> alone. Otherwise the head byte \<open>h\<close> is the
  index of the page the pointer is in, bit \<open>h\<close> was set and is cleared, and nothing is
  freed: the block of the page stays allocated.
\<close>

theorem Deallocate_effect:
  assumes reach: "run (MemoryPool n) xs = Some s" and live: "objs s ptr \<noteq> None"
  shows "\<exists>s'. Deallocate ptr s = Inr s' \<and>
      objs s' = (objs s)(ptr := None) \<and>
      (if mem s (ptr - 1) = extendFlag
       then events_since s s' = [EvDestruct ptr, EvFree (ptr - 1)] \<and>
            ptr - 1 \<in> blocks s \<and> blocks s' = blocks s - {ptr - 1} \<and> bits s' = bits s
       else events_since s s' = [EvDestruct ptr] \<and> blocks s' = blocks s \<and>
            unat (mem s (ptr - 1)) < 64 \<and> pages s ! unat (mem s (ptr - 1)) = ptr \<and>
            bit (bits s) (unat (mem s (ptr - 1))) \<and>
            bits s' = bits s AND NOT (push_bit (unat (mem s (ptr - 1))) 1) \<and>
            ptr - 1 \<in> blocks s')"
proof -
  have inv: "pool_inv s" using run_inv[OF pool_inv_init reach] .
  note l = pool_inv_live[OF inv live]
  then have pnz: "ptr \<noteq> 0" by simp
  show ?thesis
  proof (cases "mem s (ptr - 1) = extendFlag")
    case True
    show ?thesis
      using True l Deallocate_extend[OF pnz True]
      by (simp add: std_free_def destroy_def events_since_def)
  next
    case False
    then obtain i where i: "i < 64" "pages s ! i = ptr" "mem s (ptr - 1) = of_nat i"
        "bit (bits s) i"
      using l by blast
    have u: "unat (mem s (ptr - 1)) = i" using i head_index_unat by simp
    have "unat (mem s (ptr - 1)) < 64" using u i by simp
    then show ?thesis
      using False l Deallocate_slot[OF pnz False] i(2,4) u
      by (simp add: destroy_def events_since_def)
  qed
qed

text \<open>
  Both cases on the example pools.
\<close>

theorem Deallocate_effect_witness:
  "(\<exists>s'. Deallocate 65 example_pool = Inr s' \<and> objs s' 65 = None \<and>
      events_since example_pool s' = [EvDestruct 65] \<and> blocks s' = blocks example_pool \<and>
      bits s' = 1) \<and>
   (\<exists>s'. Deallocate 33 example_overflow_pool = Inr s' \<and> objs s' 33 = None \<and>
      events_since example_overflow_pool s' = [EvDestruct 33, EvFree 32] \<and> blocks s' = {})"
proof -
  have a: "objs example_pool 65 \<noteq> None" "mem example_pool (65 - 1) \<noteq> extendFlag"
    "unat (mem example_pool (65 - 1)) = 1"
    by (simp_all add: example_pool_fields extendFlag_def)
  have b: "objs example_overflow_pool 33 \<noteq> None"
    "mem example_overflow_pool (33 - 1) = extendFlag"
    by (simp_all add: example_overflow_pool_fields extendFlag_def)
  have c: "(3 :: 64 word) AND NOT (push_bit 1 1) = 1" by simp
  show ?thesis
    using Deallocate_effect[OF example_pool_run a(1)]
      Deallocate_effect[OF example_overflow_pool_run b(1)] a(2,3) b(2) c
    by (auto simp add: example_pool_fields example_overflow_pool_fields)
qed



text \<open>
  C4. Let a call of \<^verbatim>\<open>Allocate<T>\<close> be served from the page table and allocate the page
  it claims. Then the pointer it returns is one past the address \<^verbatim>\<open>std::malloc\<close> returned;
  \<^verbatim>\<open>Deallocate\<close> of that pointer returns normally; and a call of \<^verbatim>\<open>Allocate<T>\<close> that follows
  it at once, whatever its arguments and whatever the allocator would hand out, returns
  the same pointer, makes no call of the raw allocator and leaves the page table as it
  was.
\<close>

theorem slot_reuse:
  assumes first: "Allocate T args raw s = Inr (p, s1)"
    and slot: "\<not> took_overflow s (Allocate T args raw s)"
    and fresh: "list_ex is_malloc (events_since s s1)"
    and len: "length (pages s) = 64"
  shows "p = raw + 1 \<and>
     (\<exists>s2. Deallocate p s1 = Inr s2 \<and>
        (\<forall>args' raw'. \<exists>s3. Allocate T args' raw' s2 = Inr (p, s3) \<and>
           \<not> list_ex is_raw_alloc (events_since s2 s3) \<and>
           pages s3 = pages s1 \<and> objs s3 p = Some (construct T args')))"
proof -
  define i where "i = first_clear (bits s) 0"
  define s0 where "s0 = s\<lparr>bits := bits s OR push_bit i 1\<rparr>"
  note f = Allocate_slot_form[OF first slot]
  have i: "i < 64" and clear: "\<not> bit (bits s) i" and ns: "\<not> pageSize s < sizeof T"
    and c: "claim_page T args raw s0 i = Inr (p, s1)"
    using f by (simp_all add: i_def s0_def)
  have nopage: "pages s0 ! i = 0"
  proof (rule ccontr)
    assume "pages s0 ! i \<noteq> 0"
    then have "trace s1 = trace s0 @ [EvConstruct p (construct T args)]"
      using claim_page_present_events[OF c] by simp
    then show False using fresh by (simp add: events_since_def s0_def)
  qed
  have li: "i < length (pages s0)" using len i by (simp add: s0_def)
  note e = claim_page_fresh_events[OF c nopage li]
  have p: "p = raw + 1" and pnz: "p \<noteq> 0" using e by simp_all
  have hd: "mem s1 (p - 1) = of_nat i" using e by simp
  have nf: "mem s1 (p - 1) \<noteq> extendFlag" using hd head_index_not_flag[OF i] by simp
  have u: "unat (mem s1 (p - 1)) = i" using hd head_index_unat[OF i] by simp
  define s2 where "s2 = (destroy p s1)\<lparr>bits := bits s1 AND NOT (push_bit i 1)\<rparr>"
  have d: "Deallocate p s1 = Inr s2"
    using Deallocate_slot[OF pnz nf] u i by (simp add: s2_def)
  have b2: "bits s2 = bits s"
    using e set_then_clear[OF clear] by (simp add: s2_def destroy_def s0_def)
  have pg2: "pages s2 = pages s1" "pageSize s2 = pageSize s" "pages s2 ! i = p"
    using e li by (simp_all add: s2_def destroy_def s0_def)
  have again: "\<exists>s3. Allocate T args' raw' s2 = Inr (p, s3) \<and>
           \<not> list_ex is_raw_alloc (events_since s2 s3) \<and>
           pages s3 = pages s1 \<and> objs s3 p = Some (construct T args')" for args' raw'
  proof -
    have nfull: "bits s2 \<noteq> - 1" using f b2 by simp
    have "Allocate T args' raw' s2 =
        claim_page T args' raw' (s2\<lparr>bits := bits s2 OR push_bit i 1\<rparr>) i"
      using ns nfull pg2 b2 by (simp add: Allocate_cases i_def)
    also have "\<dots> = Inr (p, placement_new p T args' (s2\<lparr>bits := bits s2 OR push_bit i 1\<rparr>))"
      using claim_page_present[of "s2\<lparr>bits := bits s2 OR push_bit i 1\<rparr>" i T args' raw'] pg2 pnz
      by simp
    finally show ?thesis
      using pg2 by (simp add: placement_new_def events_since_def)
  qed
  show ?thesis using p d again by blast
qed

text \<open>
  On a fresh pool of 512 bytes: 33, deallocated, and 33 again.
\<close>

theorem slot_reuse_witness:
  "\<exists>s1 s2 s3. Allocate Point (3, 4) 32 (MemoryPool 512) = Inr (33, s1) \<and>
     Deallocate 33 s1 = Inr s2 \<and> Allocate Point (5, 6) 64 s2 = Inr (33, s3) \<and>
     \<not> list_ex is_raw_alloc (events_since s2 s3) \<and> objs s3 33 = Some \<lparr>px = 5, py = 6\<rparr>"
proof -
  let ?s = "MemoryPool 512 :: point state"
  obtain s1 where a: "Allocate Point (3, 4) 32 ?s = Inr (33, s1)"
    by (simp add: eval_simps Point_def)
  have b: "\<not> took_overflow ?s (Allocate Point (3, 4) 32 ?s)"
    by (simp add: eval_simps Point_def took_overflow_def state_of_def events_since_def)
  have c: "list_ex is_malloc (events_since ?s s1)"
    using a by (auto simp add: eval_simps Point_def events_since_def)
  have d: "length (pages ?s) = 64" by (simp add: MemoryPool_def)
  obtain s2 where e: "Deallocate 33 s1 = Inr s2"
    and f: "\<forall>args' raw'. \<exists>s3. Allocate Point args' raw' s2 = Inr (33, s3) \<and>
           \<not> list_ex is_raw_alloc (events_since s2 s3) \<and>
           pages s3 = pages s1 \<and> objs s3 33 = Some (construct Point args')"
    using slot_reuse[OF a b c d] by blast
  obtain s3 where g: "Allocate Point (5, 6) 64 s2 = Inr (33, s3)"
    "\<not> list_ex is_raw_alloc (events_since s2 s3)" "objs s3 33 = Some (construct Point (5, 6))"
    using f[rule_format, of "(5, 6)" 64] by blast
  have "objs s3 33 = Some \<lparr>px = 5, py = 6\<rparr>" using g(3) by (simp add: Point_def)
  then show ?thesis using a e g by blast
qed

text \<open>
  C5. After every run from a freshly constructed pool, the destructor of the pool
  calls \<^verbatim>\<open>std::free\<close> once for each non-null entry of the page table, on the address one
  before the entry, and makes no other call. The entries are pairwise different, each of
  these blocks was live and is released, and the calls are as many as the calls of
  \<^verbatim>\<open>std::malloc\<close> in the run, however often the pages were used again. No destructor of an
  object is called and the objects are left as they were, also in pages whose bit is
  still set.
\<close>

theorem dtor_releases_materialized_pages:
  assumes reach: "run (MemoryPool n) xs = Some s"
  shows "events_since s (MemoryPool_dtor s) =
           map (\<lambda>p. EvFree (p - 1)) (filter (\<lambda>p. p \<noteq> 0) (pages s)) \<and>
         distinct (filter (\<lambda>p. p \<noteq> 0) (pages s)) \<and>
         length (events_since s (MemoryPool_dtor s)) = length (filter is_malloc (trace s)) \<and>
         \<not> list_ex is_destruct (events_since s (MemoryPool_dtor s)) \<and>
         objs (MemoryPool_dtor s) = objs s \<and>
         (\<forall>p \<in> set (pages s). p \<noteq> 0 \<longrightarrow>
            p - 1 \<in> blocks s \<and> p - 1 \<notin> blocks (MemoryPool_dtor s))"
proof -
  have inv: "pool_inv s" using run_inv[OF pool_inv_init reach] .
  have cnt: "count_inv s" using run_count[OF pool_inv_init count_inv_init reach] .
  have len: "length (pages s) = 64" using pool_inv_length[OF inv] .
  have ev: "events_since s (MemoryPool_dtor s) =
           map (\<lambda>p. EvFree (p - 1)) (filter (\<lambda>p. p \<noteq> 0) (pages s))"
    using nonzero_pages_as_indices[OF len, of "\<lambda>p. EvFree (p - 1)"]
    by (simp add: MemoryPool_dtor_def dtor_loop_trace events_since_def)
  have di: "distinct (filter (\<lambda>p. p \<noteq> 0) (pages s))"
    using pool_inv_pages_distinct[OF inv] len by (intro distinct_filter_nonzero) auto
  have nd: "\<not> list_ex is_destruct (events_since s (MemoryPool_dtor s))"
    unfolding ev by (simp add: list_ex_iff)
  have ln: "length (events_since s (MemoryPool_dtor s)) = length (filter is_malloc (trace s))"
    unfolding ev using cnt by (simp add: count_inv_def)
  have bl: "p - 1 \<in> blocks s \<and> p - 1 \<notin> blocks (MemoryPool_dtor s)"
    if pm: "p \<in> set (pages s)" and pz: "p \<noteq> 0" for p
  proof -
    obtain j where j: "j < 64" "pages s ! j = p" using pm len unfolding in_set_conv_nth by auto
    then have "p - 1 \<in> blocks s" using pool_inv_page[OF inv j(1)] pz by simp
    moreover have "p - 1 \<notin> blocks (MemoryPool_dtor s)"
      using j pz by (auto simp add: MemoryPool_dtor_def dtor_loop_blocks)
    ultimately show ?thesis by simp
  qed
  show ?thesis using ev di ln nd bl dtor_loop_fields[of s 0] by (simp add: MemoryPool_dtor_def)
qed

text \<open>
  The example run constructs three objects in two pages; page 0 still holds an object;
  the destructor frees the two pages and leaves the object.
\<close>

theorem dtor_releases_materialized_pages_witness:
  "run (MemoryPool 512) example_ops = Some example_pool \<and>
   length (filter is_construct (trace example_pool)) = 3 \<and>
   bit (bits example_pool) 0 \<and>
   events_since example_pool (MemoryPool_dtor example_pool) = [EvFree 32, EvFree 64] \<and>
   objs (MemoryPool_dtor example_pool) 33 = Some \<lparr>px = 7, py = 8\<rparr>"
proof -
  have "(64::nat) = Suc (Suc 62)" by simp
  then have r: "replicate 64 (0::nat) = 0 # 0 # replicate 62 0"
    by (simp only: replicate_Suc)
  have "pages example_pool = (replicate 64 0)[0 := 33, Suc 0 := 65]"
    by (simp add: example_pool_def example_ops_def eval_simps Point_def)
  then have p: "filter (\<lambda>p. p \<noteq> 0) (pages example_pool) = [33, 65]"
    unfolding r by simp
  have c: "length (filter is_construct (trace example_pool)) = 3"
    by (simp add: example_pool_def example_ops_def eval_simps Point_def)
  show ?thesis
    using dtor_releases_materialized_pages[OF example_pool_run] example_pool_run p c
    by (simp add: example_pool_fields)
qed

text \<open>
  C6. \<^verbatim>\<open>AllocateExtend\<close> asks \<^verbatim>\<open>std::aligned_alloc\<close> for \<^verbatim>\<open>sizeof(T) + 1\<close> bytes aligned to
  \<^verbatim>\<open>alignof(T)\<close>, writes \<^verbatim>\<open>0xFF\<close> to the first byte and builds the object one byte further
  (\<open>AllocateExtend_effect\<close>). The address it returns is therefore not aligned for a type
  of alignment greater than 1: for \<^verbatim>\<open>Point\<close>, of alignment 8, on a block at 32 it returns
  33.
\<close>

theorem AllocateExtend_misaligned:
  "\<exists>s'. AllocateExtend Point (3, 4) 32 (MemoryPool 8) = Inr (33, s') \<and>
     events_since (MemoryPool 8) s' =
       [EvAlignedAlloc 8 17 32, EvConstruct 33 \<lparr>px = 3, py = 4\<rparr>] \<and>
     alignof Point = 8 \<and> (8::nat) dvd 32 \<and> \<not> (8::nat) dvd 33"
  by (simp add: eval_simps Point_def events_since_def)

text \<open>
  C7. \<^verbatim>\<open>Allocate\<close> does not check what the raw allocator returns. A call ends in the
  write through the null pointer exactly when the raw allocation it made returned null:
  so it does in \<^verbatim>\<open>AllocateExtend\<close>, and so it does in the loop when the page of the first
  clear bit has still to be allocated; with an allocation that succeeds the write
  through null is not reached.
\<close>

theorem Allocate_null_unchecked:
  "(fault_of (Allocate T args raw s) = Some NullDeref \<longleftrightarrow>
      list_ex returned_null (events_since s (state_of (Allocate T args raw s)))) \<and>
   fault_of (AllocateExtend T args 0 s) = Some NullDeref \<and>
   (\<not> pageSize s < sizeof T \<and> i < 64 \<and> \<not> bit (bits s) i \<and> (\<forall>j<i. bit (bits s) j) \<and>
    pages s ! i = 0 \<and> sint (pageSize s) < 2 ^ 63 - 1 \<longrightarrow>
      fault_of (Allocate T args 0 s) = Some NullDeref) \<and>
   (raw \<noteq> 0 \<longrightarrow> fault_of (Allocate T args raw s) \<noteq> Some NullDeref)"
proof (intro conjI impI)
  show iff: "fault_of (Allocate T args raw s) = Some NullDeref \<longleftrightarrow>
      list_ex returned_null (events_since s (state_of (Allocate T args raw s)))" for raw
    by (simp add: Allocate_cases fault_extend null_event_extend fault_claim_page
          null_event_claim_page)
  show "fault_of (AllocateExtend T args 0 s) = Some NullDeref"
    by (simp add: fault_extend)
  show "fault_of (Allocate T args raw s) \<noteq> Some NullDeref" if "raw \<noteq> 0"
    using that by (simp add: Allocate_cases fault_extend fault_claim_page)
  show "fault_of (Allocate T args 0 s) = Some NullDeref"
    if h: "\<not> pageSize s < sizeof T \<and> i < 64 \<and> \<not> bit (bits s) i \<and> (\<forall>j<i. bit (bits s) j) \<and>
        pages s ! i = 0 \<and> sint (pageSize s) < 2 ^ 63 - 1"
  proof -
    have fc: "first_clear (bits s) 0 = i" using h by (intro first_clear_eqI) auto
    have nf: "bits s \<noteq> - 1" using h all_bits_iff[of "bits s"] by blast
    show ?thesis using h nf by (simp add: Allocate_cases fc fault_claim_page)
  qed
qed

text \<open>
  The pool of 512 bytes faults on its first page, the pool of 8 bytes in
  \<^verbatim>\<open>AllocateExtend\<close>, when the allocator returns null; no fault when it returns 32.
\<close>

theorem Allocate_null_unchecked_witness:
  "fault_of (Allocate Point (3, 4) 0 (MemoryPool 512)) = Some NullDeref \<and>
   fault_of (Allocate Point (3, 4) 0 (MemoryPool 8)) = Some NullDeref \<and>
   fault_of (Allocate Point (3, 4) 32 (MemoryPool 512)) = None"
proof -
  let ?s = "MemoryPool 512 :: point state"
  have h: "\<not> pageSize ?s < sizeof Point \<and> 0 < (64::nat) \<and> \<not> bit (bits ?s) 0 \<and>
      (\<forall>j<0. bit (bits ?s) j) \<and> pages ?s ! 0 = 0 \<and> sint (pageSize ?s) < 2 ^ 63 - 1"
    by (simp add: MemoryPool_def Point_def)
  have a: "fault_of (Allocate Point (3, 4) 0 ?s) = Some NullDeref"
    using Allocate_null_unchecked[of Point "(3, 4)" 0 ?s 0] h by blast
  have b: "fault_of (Allocate Point (3, 4) 0 (MemoryPool 8)) = Some NullDeref"
    using Allocate_null_unchecked[of Point "(3, 4)" 0 "MemoryPool 8" 0]
    by (simp add: Allocate_def MemoryPool_def Point_def)
  have c: "fault_of (Allocate Point (3, 4) 32 ?s) = None"
    by (simp add: eval_simps Point_def fault_of_def)
  show ?thesis using a b c by simp
qed

text \<open>
  C8. The object at the pointer that \<^verbatim>\<open>Allocate<T>(args...)\<close> returns is the one the
  constructor of \<^verbatim>\<open>T\<close> builds from exactly \<open>args\<close>, and the placement \<^verbatim>\<open>new\<close> with these
  arguments is the last call logged, in the page table and in \<^verbatim>\<open>AllocateExtend\<close> alike.
\<close>

theorem Allocate_forwards_args:
  "(Allocate T args raw s = Inr (p, s') \<longrightarrow>
      objs s' p = Some (construct T args) \<and> last (trace s') = EvConstruct p (construct T args)) \<and>
   (claim_page T args raw s i = Inr (p, s') \<longrightarrow>
      objs s' p = Some (construct T args) \<and> last (trace s') = EvConstruct p (construct T args)) \<and>
   (AllocateExtend T args raw s = Inr (p, s') \<longrightarrow>
      objs s' p = Some (construct T args) \<and> last (trace s') = EvConstruct p (construct T args))"
proof -
  have a: "objs s' p = Some (construct T args) \<and>
      last (trace s') = EvConstruct p (construct T args)"
    if "AllocateExtend T args raw s = Inr (p, s')" for s
    using that extend_ptr[of T args raw s p s'] by blast
  have b: "objs s' p = Some (construct T args) \<and>
      last (trace s') = EvConstruct p (construct T args)"
    if "claim_page T args raw s0 j = Inr (p, s')" for s0 j
    using that claim_page_ptr[of T args raw s0 j p s'] claim_page_last[of T args raw s0 j p s']
    by blast
  have c: "objs s' p = Some (construct T args) \<and>
      last (trace s') = EvConstruct p (construct T args)"
    if "Allocate T args raw s = Inr (p, s')"
    using that a[of s] b[of _ "first_clear (bits s) 0"]
    by (simp add: Allocate_cases split: if_splits)
  show ?thesis using a[of s] b[of s i] c by blast
qed

text \<open>
  \<^verbatim>\<open>Allocate<Point>(3, 4)\<close> yields the point with fields 3 and 4, from page 0 of a pool of
  512 bytes and from \<^verbatim>\<open>AllocateExtend\<close> in a pool of 8 bytes.
\<close>

theorem Allocate_forwards_args_witness:
  "(\<exists>p s'. Allocate Point (3, 4) 32 (MemoryPool 512) = Inr (p, s') \<and>
       \<not> took_overflow (MemoryPool 512) (Allocate Point (3, 4) 32 (MemoryPool 512)) \<and>
       objs s' p = Some \<lparr>px = 3, py = 4\<rparr>) \<and>
   (\<exists>p s'. Allocate Point (3, 4) 32 (MemoryPool 8) = Inr (p, s') \<and>
       took_overflow (MemoryPool 8) (Allocate Point (3, 4) 32 (MemoryPool 8)) \<and>
       objs s' p = Some \<lparr>px = 3, py = 4\<rparr>)"
proof -
  obtain p s' where h: "Allocate Point (3, 4) 32 (MemoryPool 512) = Inr (p, s')"
    by (simp add: eval_simps Point_def)
  obtain q t' where k: "Allocate Point (3, 4) 32 (MemoryPool 8) = Inr (q, t')"
    by (simp add: eval_simps Point_def)
  have "objs s' p = Some (construct Point (3, 4))"
    using Allocate_forwards_args[of Point "(3, 4)" 32 "MemoryPool 512" p s'] h by blast
  moreover have "objs t' q = Some (construct Point (3, 4))"
    using Allocate_forwards_args[of Point "(3, 4)" 32 "MemoryPool 8" q t'] k by blast
  moreover have "\<not> took_overflow (MemoryPool 512) (Allocate Point (3, 4) 32 (MemoryPool 512))"
    by (simp add: eval_simps Point_def took_overflow_def state_of_def events_since_def)
  moreover have "took_overflow (MemoryPool 8) (Allocate Point (3, 4) 32 (MemoryPool 8))"
    by (simp add: eval_simps Point_def took_overflow_def state_of_def events_since_def)
  ultimately show ?thesis using h k by (simp add: Point_def)
qed

text \<open>
  C9. In every run from a freshly constructed pool, a call of \<^verbatim>\<open>Allocate<T>\<close> that is
  served from the page table returns the entry of a page whose bit was clear, and this
  entry is one past an address \<open>r\<close> that \<^verbatim>\<open>std::malloc\<close> returned: the address of this very
  call when the page was not yet allocated. So when \<^verbatim>\<open>alignof(T)\<close> is greater than 1 and
  divides \<open>r\<close>, it does not divide the pointer returned.
\<close>

theorem slot_pointer_offset:
  assumes reach: "run (MemoryPool n) xs = Some s" and fresh: "raw \<notin> blocks s"
    and al: "Allocate T args raw s = Inr (p, s')"
    and slot: "\<not> took_overflow s (Allocate T args raw s)"
  shows "\<exists>i<64. \<not> bit (bits s) i \<and> pages s' ! i = p \<and>
          (\<exists>m r. EvMalloc m r \<in> set (trace s') \<and> r \<noteq> 0 \<and> pages s' ! i = r + 1 \<and>
             (pages s ! i = 0 \<longrightarrow> r = raw \<and> list_ex is_malloc (events_since s s')) \<and>
             (1 < alignof T \<and> alignof T dvd r \<longrightarrow> \<not> alignof T dvd p))"
proof -
  have inv: "pool_inv s" using run_inv[OF pool_inv_init reach] .
  have inv': "pool_inv s'" using Allocate_inv[OF inv fresh al] .
  define i where "i = first_clear (bits s) 0"
  define s0 where "s0 = s\<lparr>bits := bits s OR push_bit i 1\<rparr>"
  note f = Allocate_slot_form[OF al slot]
  have i: "i < 64" and clear: "\<not> bit (bits s) i"
    and c: "claim_page T args raw s0 i = Inr (p, s')"
    using f by (simp_all add: i_def s0_def)
  note q = claim_page_ptr[OF c]
  have p: "pages s' ! i = p" using q by simp
  have "bit (bits s') i" using q i by (simp add: s0_def bit_or_exp)
  then have nz: "pages s' ! i \<noteq> 0" using pool_inv_bit[OF inv' i] by simp
  obtain m where m: "EvMalloc m (pages s' ! i - 1) \<in> set (trace s')"
    using pool_inv_malloc[OF inv' i nz] by blast
  define r where "r = p - 1"
  have p2: "2 \<le> p" using pool_inv_page_ge2[OF inv' i nz] p by simp
  then have r: "r \<noteq> 0" "p = r + 1" by (simp_all add: r_def)
  have fr: "r = raw \<and> list_ex is_malloc (events_since s s')" if z: "pages s ! i = 0"
  proof -
    have z0: "pages s0 ! i = 0" using z by (simp add: s0_def)
    have li: "i < length (pages s0)" using pool_inv_length[OF inv] i by (simp add: s0_def)
    note e = claim_page_fresh_events[OF c z0 li]
    then show ?thesis by (simp add: events_since_def s0_def r_def)
  qed
  have al: "\<not> alignof T dvd p" if "1 < alignof T \<and> alignof T dvd r"
    using that next_not_aligned[of "alignof T" r] r by simp
  have m': "EvMalloc m r \<in> set (trace s')" using m p by (simp add: r_def)
  have body: "EvMalloc m r \<in> set (trace s') \<and> r \<noteq> 0 \<and> pages s' ! i = r + 1 \<and>
             (pages s ! i = 0 \<longrightarrow> r = raw \<and> list_ex is_malloc (events_since s s')) \<and>
             (1 < alignof T \<and> alignof T dvd r \<longrightarrow> \<not> alignof T dvd p)"
  proof (intro conjI impI)
    show "EvMalloc m r \<in> set (trace s')" by (rule m')
    show "r \<noteq> 0" by (rule r(1))
    show "pages s' ! i = r + 1" using p r(2) by simp
    show "r = raw" if "pages s ! i = 0" using fr[OF that] by simp
    show "list_ex is_malloc (events_since s s')" if "pages s ! i = 0" using fr[OF that] by simp
    show "\<not> alignof T dvd p" if "1 < alignof T \<and> alignof T dvd r" using al[OF that] .
  qed
  have ex: "\<exists>m r. EvMalloc m r \<in> set (trace s') \<and> r \<noteq> 0 \<and> pages s' ! i = r + 1 \<and>
             (pages s ! i = 0 \<longrightarrow> r = raw \<and> list_ex is_malloc (events_since s s')) \<and>
             (1 < alignof T \<and> alignof T dvd r \<longrightarrow> \<not> alignof T dvd p)"
    by (rule exI[of _ m], rule exI[of _ r]) (rule body)
  show ?thesis
  proof (intro exI[of _ i] conjI)
    show "i < 64" by (rule i)
    show "\<not> bit (bits s) i" by (rule clear)
    show "pages s' ! i = p" by (rule p)
    show "\<exists>m r. EvMalloc m r \<in> set (trace s') \<and> r \<noteq> 0 \<and> pages s' ! i = r + 1 \<and>
             (pages s ! i = 0 \<longrightarrow> r = raw \<and> list_ex is_malloc (events_since s s')) \<and>
             (1 < alignof T \<and> alignof T dvd r \<longrightarrow> \<not> alignof T dvd p)" by (rule ex)
  qed
qed

text \<open>
  The next allocation in the example pool takes page 2 at 128 and returns 129, which
  is not a multiple of the alignment 8 of \<^verbatim>\<open>Point\<close>.
\<close>

theorem slot_pointer_offset_witness:
  "run (MemoryPool 512) example_ops = Some example_pool \<and> 128 \<notin> blocks example_pool \<and>
   \<not> took_overflow example_pool (Allocate Point (9, 9) 128 example_pool) \<and>
   (\<exists>s'. Allocate Point (9, 9) 128 example_pool = Inr (129, s') \<and>
      EvMalloc 513 128 \<in> set (trace s') \<and> alignof Point dvd 128 \<and> \<not> alignof Point dvd 129 \<and>
      (\<exists>i<64. \<not> bit (bits example_pool) i \<and> pages s' ! i = 129 \<and>
          (\<exists>m r. EvMalloc m r \<in> set (trace s') \<and> r \<noteq> 0 \<and> pages s' ! i = r + 1 \<and>
             (pages example_pool ! i = 0 \<longrightarrow>
                r = 128 \<and> list_ex is_malloc (events_since example_pool s')) \<and>
             (1 < alignof Point \<and> alignof Point dvd r \<longrightarrow> \<not> alignof Point dvd 129))))"
proof -
  have fresh: "128 \<notin> blocks example_pool" by (simp add: example_pool_fields)
  obtain s' where a: "Allocate Point (9, 9) 128 example_pool = Inr (129, s')"
    by (simp add: example_pool_def example_ops_def eval_simps Point_def)
  have b: "\<not> took_overflow example_pool (Allocate Point (9, 9) 128 example_pool)"
    by (simp add: example_pool_def example_ops_def eval_simps Point_def took_overflow_def
          state_of_def events_since_def)
  note th = slot_pointer_offset[OF example_pool_run fresh a b]
  have c: "EvMalloc 513 128 \<in> set (trace s')"
    using a by (auto simp add: example_pool_def example_ops_def eval_simps Point_def)
  have d: "alignof Point dvd 128" "\<not> alignof Point dvd 129" by (simp_all add: Point_def)
  show ?thesis
  proof (intro conjI exI[of _ s'])
    show "run (MemoryPool 512) example_ops = Some example_pool" by (rule example_pool_run)
  qed (rule fresh b a c d th)+
qed

text \<open>
  C10. \<^verbatim>\<open>Deallocate\<close> of a pointer whose head byte \<open>h\<close> is the index of a page clears bit
  \<open>h\<close> of \<^verbatim>\<open>bits_\<close> and leaves every other bit, the page table and \<^verbatim>\<open>pageSize_\<close> as they
  were; \<^verbatim>\<open>Deallocate\<close> of a pointer whose head byte is \<^verbatim>\<open>0xFF\<close> leaves \<^verbatim>\<open>bits_\<close>, the page
  table and \<^verbatim>\<open>pageSize_\<close> as they were.
\<close>

theorem Deallocate_frame:
  assumes "ptr \<noteq> 0"
  shows "(mem s (ptr - 1) \<noteq> extendFlag \<and> unat (mem s (ptr - 1)) < 64 \<longrightarrow>
           (\<exists>s'. Deallocate ptr s = Inr s' \<and>
              \<not> bit (bits s') (unat (mem s (ptr - 1))) \<and>
              (\<forall>j. j \<noteq> unat (mem s (ptr - 1)) \<longrightarrow> bit (bits s') j = bit (bits s) j) \<and>
              pages s' = pages s \<and> pageSize s' = pageSize s)) \<and>
         (mem s (ptr - 1) = extendFlag \<longrightarrow>
           (\<exists>s'. Deallocate ptr s = Inr s' \<and>
              bits s' = bits s \<and> pages s' = pages s \<and> pageSize s' = pageSize s))"
proof (intro conjI impI)
  assume "mem s (ptr - 1) = extendFlag"
  then show "\<exists>s'. Deallocate ptr s = Inr s' \<and>
              bits s' = bits s \<and> pages s' = pages s \<and> pageSize s' = pageSize s"
    using Deallocate_extend[OF assms, of s] by (simp add: std_free_def destroy_def)
next
  assume h: "mem s (ptr - 1) \<noteq> extendFlag \<and> unat (mem s (ptr - 1)) < 64"
  then have "Deallocate ptr s =
     Inr ((destroy ptr s)\<lparr>bits := bits s AND NOT (push_bit (unat (mem s (ptr - 1))) 1)\<rparr>)"
    using Deallocate_slot[OF assms, of s] by blast
  then show "\<exists>s'. Deallocate ptr s = Inr s' \<and>
              \<not> bit (bits s') (unat (mem s (ptr - 1))) \<and>
              (\<forall>j. j \<noteq> unat (mem s (ptr - 1)) \<longrightarrow> bit (bits s') j = bit (bits s) j) \<and>
              pages s' = pages s \<and> pageSize s' = pageSize s"
    by (simp add: destroy_def bit_and_not_exp)
qed

text \<open>
  In the example pool the object at 65 is in page 1: bit 1 is cleared, bit 0 stays.
  In the pool of 8 bytes the object at 33 has the head byte \<^verbatim>\<open>0xFF\<close>.
\<close>

theorem Deallocate_frame_witness:
  "(\<exists>s'. Deallocate 65 example_pool = Inr s' \<and> \<not> bit (bits s') 1 \<and> bit (bits s') 0 \<and>
        pages s' = pages example_pool \<and> pageSize s' = pageSize example_pool) \<and>
   (\<exists>s'. Deallocate 33 example_overflow_pool = Inr s' \<and> bits s' = bits example_overflow_pool \<and>
        pages s' = pages example_overflow_pool)"
proof -
  have nz: "(65::nat) \<noteq> 0" "(33::nat) \<noteq> 0" by simp_all
  have h: "mem example_pool (65 - 1) \<noteq> extendFlag \<and> unat (mem example_pool (65 - 1)) < 64"
    by (simp add: example_pool_fields extendFlag_def)
  have k: "mem example_overflow_pool (33 - 1) = extendFlag"
    by (simp add: example_overflow_pool_fields extendFlag_def)
  obtain s' where s': "Deallocate 65 example_pool = Inr s'"
      "\<not> bit (bits s') (unat (mem example_pool (65 - 1)))"
      "\<forall>j. j \<noteq> unat (mem example_pool (65 - 1)) \<longrightarrow> bit (bits s') j = bit (bits example_pool) j"
      "pages s' = pages example_pool" "pageSize s' = pageSize example_pool"
    using Deallocate_frame[OF nz(1), of example_pool] h by blast
  have "\<not> bit (bits s') 1 \<and> bit (bits s') 0"
    using s'(2) s'(3)[rule_format, of 0] by (simp add: example_pool_fields)
  moreover obtain t' where "Deallocate 33 example_overflow_pool = Inr t'"
      "bits t' = bits example_overflow_pool" "pages t' = pages example_overflow_pool"
    using Deallocate_frame[OF nz(2), of example_overflow_pool] k by blast
  ultimately show ?thesis using s' by blast
qed

end
